theory Spec2Isabelle
  imports Complex_Main "HOL-Library.Multiset" "HOL-Library.Sublist"
begin

section \<open>Values\<close>

text \<open>
  The collector works on what \<^verbatim>\<open>response.json()\<close> returns: Python values built from
  \<^verbatim>\<open>None\<close>, booleans, integers, strings, lists and dictionaries. A dictionary is an
  association list in which the first binding of a key is the one Python holds.
  Fractional numbers are left out: no field the collector reads is one.
  Strings are ASCII texts; the character tables below are Python's restricted to ASCII.
\<close>

datatype json =
    JNull
  | JBool bool
  | JInt int
  | JStr string
  | JList "json list"
  | JDict "(string \<times> json) list"

datatype error =
    HTTPError int string
  | RequestException
  | JSONDecodeError
  | ValueError
  | KeyError string
  | TypeError
  | AttributeError
  | OverflowError

text \<open>Python's truth value of an object, as \<^verbatim>\<open>if x\<close> and \<^verbatim>\<open>not x\<close> test it.\<close>

fun truthy :: "json \<Rightarrow> bool" where
  "truthy JNull = False"
| "truthy (JBool b) = b"
| "truthy (JInt n) = (n \<noteq> 0)"
| "truthy (JStr s) = (s \<noteq> [])"
| "truthy (JList xs) = (xs \<noteq> [])"
| "truthy (JDict kvs) = (kvs \<noteq> [])"

text \<open>\<^verbatim>\<open>d[key]\<close> with a string key: only a dictionary can be subscripted that way.\<close>

fun getitem :: "json \<Rightarrow> string \<Rightarrow> error + json" where
  "getitem (JDict kvs) k = (case map_of kvs k of None \<Rightarrow> Inl (KeyError k) | Some v \<Rightarrow> Inr v)"
| "getitem _ k = Inl TypeError"

text \<open>\<^verbatim>\<open>d.get(key)\<close>: a method of dictionaries only; a missing key gives \<^verbatim>\<open>None\<close>.\<close>

fun get :: "json \<Rightarrow> string \<Rightarrow> error + json" where
  "get (JDict kvs) k = (case map_of kvs k of None \<Rightarrow> Inr JNull | Some v \<Rightarrow> Inr v)"
| "get _ k = Inl AttributeError"

text \<open>
  \<^verbatim>\<open>for x in v\<close>: the elements of a list, the keys of a dictionary, the characters of a
  string; nothing else here is iterable.
\<close>

fun iter :: "json \<Rightarrow> error + json list" where
  "iter (JList xs) = Inr xs"
| "iter (JDict kvs) = Inr (map (\<lambda>kv. JStr (fst kv)) kvs)"
| "iter (JStr s) = Inr (map (\<lambda>c. JStr [c]) s)"
| "iter _ = Inl TypeError"

text \<open>Sequencing of steps that may raise: the first exception ends the computation.\<close>

definition and_then :: "error + 'a \<Rightarrow> ('a \<Rightarrow> error + 'b) \<Rightarrow> error + 'b" where
  "and_then r f = (case r of Inl e \<Rightarrow> Inl e | Inr x \<Rightarrow> f x)"

text \<open>
  A text that the code hands to \<^verbatim>\<open>int()\<close> (a header of a response, a cell of a table) is
  represented by what \<^verbatim>\<open>int()\<close> makes of it: an integer, or a \<^verbatim>\<open>ValueError\<close>.
\<close>

datatype int_text = IntText int | OtherText

fun to_int :: "int_text \<Rightarrow> error + int" where
  "to_int (IntText n) = Inr n"
| "to_int OtherText = Inl ValueError"

section \<open>Strings\<close>

definition isspace :: "char \<Rightarrow> bool" where
  "isspace c \<longleftrightarrow> c \<in> set [CHR 0x09, CHR 0x0A, CHR 0x0B, CHR 0x0C, CHR 0x0D,
                            CHR 0x1C, CHR 0x1D, CHR 0x1E, CHR 0x1F, CHR 0x20]"

definition lstrip_space :: "string \<Rightarrow> string" where
  "lstrip_space s = dropWhile isspace s"

definition rstrip_space :: "string \<Rightarrow> string" where
  "rstrip_space s = rev (dropWhile isspace (rev s))"

text \<open>\<^verbatim>\<open>s.strip()\<close>\<close>

definition strip :: "string \<Rightarrow> string" where
  "strip s = rstrip_space (lstrip_space s)"

text \<open>\<^verbatim>\<open>s.lstrip(chars)\<close>: drops leading characters for as long as they are in \<^verbatim>\<open>chars\<close>.\<close>

definition lstrip :: "'c list \<Rightarrow> 'c list \<Rightarrow> 'c list" where
  "lstrip chars s = dropWhile (\<lambda>c. c \<in> set chars) s"

definition lower_case :: string where
  "lower_case = ''abcdefghijklmnopqrstuvwxyz''"

definition upper_case :: string where
  "upper_case = ''ABCDEFGHIJKLMNOPQRSTUVWXYZ''"

definition toupper :: "char \<Rightarrow> char" where
  "toupper c = (case map_of (zip lower_case upper_case) c of None \<Rightarrow> c | Some d \<Rightarrow> d)"

definition tolower :: "char \<Rightarrow> char" where
  "tolower c = (case map_of (zip upper_case lower_case) c of None \<Rightarrow> c | Some d \<Rightarrow> d)"

text \<open>\<^verbatim>\<open>s.upper()\<close> and \<^verbatim>\<open>s.lower()\<close>\<close>

definition upper :: "string \<Rightarrow> string" where
  "upper s = map toupper s"

definition lower :: "string \<Rightarrow> string" where
  "lower s = map tolower s"

section \<open>Company names\<close>

text \<open>
  \<^verbatim>\<open>
  def clean_company_name(self, company):
      if not company:
          return ""
      cleaned = company.strip().lstrip('@')
      return cleaned.upper()
  \<close>
  The argument is whatever \<^verbatim>\<open>user_data.get('company')\<close> holds; a true value that is not a
  string has no \<^verbatim>\<open>strip\<close> method.
\<close>

fun clean_company_name :: "json \<Rightarrow> error + string" where
  "clean_company_name company =
     (if \<not> truthy company then Inr ''''
      else case company of
             JStr s \<Rightarrow> Inr (upper (lstrip ''@'' (strip s)))
           | _ \<Rightarrow> Inl AttributeError)"

text \<open>
  The same function on the arguments its annotation admits, a string or \<^verbatim>\<open>None\<close>, over the
  whole alphabet of Python. The characters are of any type \<open>'c\<close>, and what the library
  supplies is a parameter: \<open>space\<close> tells the characters that \<^verbatim>\<open>str.strip()\<close> removes, \<open>up\<close>
  is \<^verbatim>\<open>str.upper\<close> (a function of the string: it may change its length), and \<open>at_sign\<close> is the
  character \<^verbatim>\<open>@\<close>.
\<close>

definition strip_by :: "('c \<Rightarrow> bool) \<Rightarrow> 'c list \<Rightarrow> 'c list" where
  "strip_by space s = rev (dropWhile space (rev (dropWhile space s)))"

definition clean_company_name_str ::
    "('c \<Rightarrow> bool) \<Rightarrow> ('c list \<Rightarrow> 'c list) \<Rightarrow> 'c \<Rightarrow> 'c list option \<Rightarrow> 'c list" where
  "clean_company_name_str space up at_sign company =
     (case company of
        None \<Rightarrow> []
      | Some s \<Rightarrow> if s = [] then [] else up (lstrip [at_sign] (strip_by space s)))"

text \<open>
  The normalisation as the specification words it: trim surrounding whitespace, strip a
  single leading \<^verbatim>\<open>@\<close>, uppercase the remainder; an empty or absent company gives the empty
  string.
\<close>

fun strip_single_at :: "'c \<Rightarrow> 'c list \<Rightarrow> 'c list" where
  "strip_single_at at_sign [] = []"
| "strip_single_at at_sign (c # cs) = (if c = at_sign then cs else c # cs)"

definition spec_clean_company_name ::
    "('c \<Rightarrow> bool) \<Rightarrow> ('c list \<Rightarrow> 'c list) \<Rightarrow> 'c \<Rightarrow> 'c list option \<Rightarrow> 'c list" where
  "spec_clean_company_name space up at_sign company =
     (case company of
        None \<Rightarrow> []
      | Some s \<Rightarrow> if s = [] then [] else up (strip_single_at at_sign (strip_by space s)))"

section \<open>The API and the clock\<close>

text \<open>
  A response of the API, as far as the collector reads it: the status code, the
  \<^verbatim>\<open>X-RateLimit-Reset\<close> header, the text of the body and what \<^verbatim>\<open>response.json()\<close> makes of it
  (\<open>None\<close> when the body is not JSON and \<^verbatim>\<open>json()\<close> raises).
\<close>

record response =
  status_code :: int
  reset_header :: "int_text option"
  body_text :: string
  body :: "json option"

text \<open>
  What \<^verbatim>\<open>requests.get\<close> does with one request: it returns a response or raises. With each
  reply comes the value \<^verbatim>\<open>time.time()\<close> reads while that reply is handled. Clock values
  are rationals; the rounding of floating-point arithmetic is not modelled.
\<close>

datatype reply = Answer response | Failure

record exchange =
  reply :: reply
  now :: rat

text \<open>
  The requests the collector makes, by what varies in them: the search query with its
  page, the profile URL taken from a search hit, the repository listing of a user with
  its page. Every listing asks for 100 results per page.
\<close>

datatype request =
    SearchUsers string int int
  | Profile json
  | UserRepos json int

text \<open>
  The world the collector runs in: the replies the API will give, in order; the requests
  sent so far and the durations slept so far, oldest first.
\<close>

record world =
  script :: "exchange list"
  sent :: "request list"
  slept :: "rat list"

text \<open>
  A call returns a value, raises, or is still waiting for a reply when the script of the
  world ends. The script is a finite course of the API, of any length: a call that would
  never end, as \<^verbatim>\<open>_make_request\<close> under rate-limit replies without end, is one that is
  waiting at the end of every such script.
\<close>

datatype 'a outcome = Returned 'a | Raised error | Waiting

text \<open>\<^verbatim>\<open>int(response.headers.get('X-RateLimit-Reset', 0))\<close>\<close>

fun reset_time :: "int_text option \<Rightarrow> error + int" where
  "reset_time None = Inr 0"
| "reset_time (Some t) = to_int t"

text \<open>
  An integer that meets a float in arithmetic is converted to a float first. The
  conversion rounds to the nearest float and raises \<^verbatim>\<open>OverflowError\<close> for an integer that
  rounds beyond the largest one, \<open>2 ^ 1024 - 2 ^ 971\<close>: that is, from \<open>2 ^ 1024 - 2 ^ 970\<close>
  on, in either sign. Within the range the model keeps the exact value.
\<close>

definition float_of_int :: "int \<Rightarrow> error + rat" where
  "float_of_int n = (if \<bar>n\<bar> < 2 ^ 1024 - 2 ^ 970 then Inr (of_int n) else Inl OverflowError)"

text \<open>\<^verbatim>\<open>max(reset_time - time.time(), 0) + 1\<close>, with the clock at \<open>t\<close>\<close>

definition sleep_time :: "int \<Rightarrow> rat \<Rightarrow> error + rat" where
  "sleep_time reset t = and_then (float_of_int reset) (\<lambda>r. Inr (max (r - t) 0 + 1))"

text \<open>
  \<^verbatim>\<open>time.sleep(d)\<close> keeps the duration as a count of nanoseconds in a signed 64-bit integer
  and raises \<^verbatim>\<open>OverflowError\<close> for a duration that does not fit, which is one of \<open>2 ^ 63\<close>
  nanoseconds (about 9.2e9 seconds) or more. The durations sleep is called with here are
  at least one second, so it raises nothing else. \<open>None\<close> is a sleep that has ended.
\<close>

definition sleep :: "rat \<Rightarrow> error option" where
  "sleep d = (if d * 10 ^ 9 < 2 ^ 63 then None else Some OverflowError)"

text \<open>
  \<^verbatim>\<open>response.raise_for_status()\<close> of the requests library raises \<^verbatim>\<open>HTTPError\<close> for a status
  from 400 to 599 and does nothing for any other status.
\<close>

definition raise_for_status :: "response \<Rightarrow> error option" where
  "raise_for_status r =
     (if 400 \<le> status_code r \<and> status_code r < 600
      then Some (HTTPError (status_code r) (body_text r)) else None)"

text \<open>
  \<^verbatim>\<open>
  def _make_request(self, url, params=None):
      while True:
          response = requests.get(url, headers=self.headers, params=params)
          if response.status_code == 200:
              return response.json()
          elif response.status_code == 403:
              reset_time = int(response.headers.get('X-RateLimit-Reset', 0))
              sleep_time = max(reset_time - time.time(), 0) + 1
              time.sleep(sleep_time)
          else:
              self.logger.error(f"Error {response.status_code}: {response.text}")
              response.raise_for_status()
  \<close>
  Each turn of the loop sends the request and takes the next reply of the script.
\<close>

fun request_loop :: "request \<Rightarrow> exchange list \<Rightarrow> request list \<Rightarrow> rat list \<Rightarrow> json outcome \<times> world" where
  "request_loop req [] sn sl = (Waiting, \<lparr>script = [], sent = sn @ [req], slept = sl\<rparr>)"
| "request_loop req (x # xs) sn sl =
     (case reply x of
        Failure \<Rightarrow> (Raised RequestException, \<lparr>script = xs, sent = sn @ [req], slept = sl\<rparr>)
      | Answer r \<Rightarrow>
          if status_code r = 200 then
            (case body r of
               None \<Rightarrow> (Raised JSONDecodeError, \<lparr>script = xs, sent = sn @ [req], slept = sl\<rparr>)
             | Some j \<Rightarrow> (Returned j, \<lparr>script = xs, sent = sn @ [req], slept = sl\<rparr>))
          else if status_code r = 403 then
            (case reset_time (reset_header r) of
               Inl e \<Rightarrow> (Raised e, \<lparr>script = xs, sent = sn @ [req], slept = sl\<rparr>)
             | Inr t \<Rightarrow>
                 (case sleep_time t (now x) of
                    Inl e \<Rightarrow> (Raised e, \<lparr>script = xs, sent = sn @ [req], slept = sl\<rparr>)
                  | Inr d \<Rightarrow>
                      (case sleep d of
                         Some e \<Rightarrow> (Raised e, \<lparr>script = xs, sent = sn @ [req], slept = sl\<rparr>)
                       | None \<Rightarrow> request_loop req xs (sn @ [req]) (sl @ [d]))))
          else
            (case raise_for_status r of
               Some e \<Rightarrow> (Raised e, \<lparr>script = xs, sent = sn @ [req], slept = sl\<rparr>)
             | None \<Rightarrow> request_loop req xs (sn @ [req]) sl))"

definition make_request :: "world \<Rightarrow> request \<Rightarrow> json outcome \<times> world" where
  "make_request w req = request_loop req (script w) (sent w) (slept w)"

section \<open>Collecting users\<close>

text \<open>\<^verbatim>\<open>v if v else ""\<close> and \<^verbatim>\<open>v if v is not None else False\<close>\<close>

definition or_empty :: "json \<Rightarrow> json" where
  "or_empty v = (if truthy v then v else JStr '''')"

definition or_false :: "json \<Rightarrow> json" where
  "or_false v = (if v \<noteq> JNull then v else JBool False)"

text \<open>
  The dictionary \<^verbatim>\<open>cleaned_data\<close> that \<^verbatim>\<open>search_users\<close> builds from a profile
  \<^verbatim>\<open>user_data\<close>, its entries evaluated in the order of the source:
  \<^verbatim>\<open>
  'login': user_data['login'],
  'name': user_data['name'] if user_data['name'] else "",
  'company': self.clean_company_name(user_data.get('company')),
  'location': user_data['location'] if user_data['location'] else "",
  'email': user_data['email'] if user_data['email'] else "",
  'hireable': user_data['hireable'] if user_data['hireable'] is not None else False,
  'bio': user_data['bio'] if user_data['bio'] else "",
  'public_repos': user_data['public_repos'],
  'followers': user_data['followers'],
  'following': user_data['following'],
  'created_at': user_data['created_at']
  \<close>
\<close>

definition cleaned_data :: "json \<Rightarrow> error + json" where
  "cleaned_data user_data =
     and_then (getitem user_data ''login'') (\<lambda>login.
     and_then (getitem user_data ''name'') (\<lambda>name.
     and_then (get user_data ''company'') (\<lambda>raw_company.
     and_then (clean_company_name raw_company) (\<lambda>company.
     and_then (getitem user_data ''location'') (\<lambda>location.
     and_then (getitem user_data ''email'') (\<lambda>email.
     and_then (getitem user_data ''hireable'') (\<lambda>hireable.
     and_then (getitem user_data ''bio'') (\<lambda>bio.
     and_then (getitem user_data ''public_repos'') (\<lambda>public_repos.
     and_then (getitem user_data ''followers'') (\<lambda>followers.
     and_then (getitem user_data ''following'') (\<lambda>following.
     and_then (getitem user_data ''created_at'') (\<lambda>created_at.
       Inr (JDict
         [(''login'', login),
          (''name'', or_empty name),
          (''company'', JStr company),
          (''location'', or_empty location),
          (''email'', or_empty email),
          (''hireable'', or_false hireable),
          (''bio'', or_empty bio),
          (''public_repos'', public_repos),
          (''followers'', followers),
          (''following'', following),
          (''created_at'', created_at)])))))))))))))"

text \<open>
  The inner loop of \<^verbatim>\<open>search_users\<close>:
  \<^verbatim>\<open>
  for user in response['items']:
      user_data = self._make_request(user['url'])
      cleaned_data = {...}
      users.append(cleaned_data)
  \<close>
\<close>

fun fetch_profiles :: "world \<Rightarrow> json list \<Rightarrow> json list \<Rightarrow> json list outcome \<times> world" where
  "fetch_profiles w [] users = (Returned users, w)"
| "fetch_profiles w (user # rest) users =
     (case getitem user ''url'' of
        Inl e \<Rightarrow> (Raised e, w)
      | Inr url \<Rightarrow>
          (case make_request w (Profile url) of
             (Returned user_data, w') \<Rightarrow>
               (case cleaned_data user_data of
                  Inl e \<Rightarrow> (Raised e, w')
                | Inr c \<Rightarrow> fetch_profiles w' rest (users @ [c]))
           | (Raised e, w') \<Rightarrow> (Raised e, w')
           | (Waiting, w') \<Rightarrow> (Waiting, w')))"

lemma request_loop_script:
  "request_loop req xs sn sl = (Returned j, w') \<Longrightarrow> length (script w') < length xs"
proof (induction xs arbitrary: sn sl)
  case Nil
  then show ?case by simp
next
  case (Cons x xs)
  then show ?case
    by (fastforce split: reply.splits if_splits option.splits sum.splits)
qed

lemma make_request_script:
  "make_request w req = (Returned j, w') \<Longrightarrow> length (script w') < length (script w)"
  unfolding make_request_def by (rule request_loop_script)

lemma request_loop_script_le:
  "request_loop req xs sn sl = (r, w') \<Longrightarrow> length (script w') \<le> length xs"
proof (induction xs arbitrary: sn sl)
  case Nil
  then show ?case by auto
next
  case (Cons x xs)
  then show ?case
    by (fastforce split: reply.splits if_splits option.splits sum.splits)
qed

lemma make_request_script_le:
  "make_request w req = (r, w') \<Longrightarrow> length (script w') \<le> length (script w)"
  unfolding make_request_def by (rule request_loop_script_le)

lemma fetch_profiles_script:
  "fetch_profiles w us users = (r, w') \<Longrightarrow> length (script w') \<le> length (script w)"
proof (induction us arbitrary: w users)
  case Nil
  then show ?case by simp
next
  case (Cons u us)
  show ?case
  proof (cases "getitem u ''url''")
    case (Inl e)
    with Cons.prems show ?thesis by simp
  next
    case (Inr url)
    obtain o1 w1 where m: "make_request w (Profile url) = (o1, w1)"
      by (cases "make_request w (Profile url)")
    then have le: "length (script w1) \<le> length (script w)"
      by (rule make_request_script_le)
    show ?thesis
    proof (cases o1)
      case (Returned user_data)
      show ?thesis
      proof (cases "cleaned_data user_data")
        case (Inl e)
        with Cons.prems Inr m Returned le show ?thesis by simp
      next
        case c: (Inr c)
        with Cons.prems Inr m Returned
        have "fetch_profiles w1 us (users @ [c]) = (r, w')" by simp
        from Cons.IH [OF this] le show ?thesis by simp
      qed
    next
      case (Raised e)
      with Cons.prems Inr m le show ?thesis by simp
    next
      case Waiting
      with Cons.prems Inr m le show ?thesis by simp
    qed
  qed
qed

text \<open>
  \<^verbatim>\<open>
  def search_users(self, location, min_followers):
      users = []
      page = 1
      while True:
          query = f"location:{location} followers:>={min_followers}"
          params = {'q': query, 'per_page': 100, 'page': page}
          url = f"{self.base_url}/search/users"
          response = self._make_request(url, params)
          if not response['items']:
              break
          for user in response['items']:
              ...
          page += 1
      return users
  \<close>
  Every turn of the loop takes at least one reply from the script, which bounds the
  number of turns.
\<close>

function search_loop :: "world \<Rightarrow> string \<Rightarrow> int \<Rightarrow> int \<Rightarrow> json list \<Rightarrow> json list outcome \<times> world" where
  "search_loop w location min_followers page users =
     (case make_request w (SearchUsers location min_followers page) of
        (Returned response, w') \<Rightarrow>
          (case getitem response ''items'' of
             Inl e \<Rightarrow> (Raised e, w')
           | Inr items \<Rightarrow>
               if \<not> truthy items then (Returned users, w')
               else
                 (case iter items of
                    Inl e \<Rightarrow> (Raised e, w')
                  | Inr hits \<Rightarrow>
                      (case fetch_profiles w' hits users of
                         (Returned users', w'') \<Rightarrow>
                           search_loop w'' location min_followers (page + 1) users'
                       | (Raised e, w'') \<Rightarrow> (Raised e, w'')
                       | (Waiting, w'') \<Rightarrow> (Waiting, w''))))
      | (Raised e, w') \<Rightarrow> (Raised e, w')
      | (Waiting, w') \<Rightarrow> (Waiting, w'))"
  by pat_completeness auto
termination
proof (relation "measure (\<lambda>(w, location, min_followers, page, users). length (script w))")
  show "wf (measure (\<lambda>(w, location, min_followers, page, users). length (script w)))"
    by simp
next
  fix w :: world and location :: string and min_followers page :: int
    and users users' hits :: "json list" and r r' response w' w''
  assume "(r, w') = make_request w (SearchUsers location min_followers page)"
    and "r = Returned response"
    and "(r', w'') = fetch_profiles w' hits users"
    and "r' = Returned users'"
  then have "make_request w (SearchUsers location min_followers page) = (Returned response, w')"
    and "fetch_profiles w' hits users = (Returned users', w'')"
    by simp_all
  then have "length (script w') < length (script w)" "length (script w'') \<le> length (script w')"
    by (simp_all add: make_request_script fetch_profiles_script)
  then show "((w'', location, min_followers, page + 1, users'),
              (w, location, min_followers, page, users))
             \<in> measure (\<lambda>(w, location, min_followers, page, users). length (script w))"
    by simp
qed

declare search_loop.simps [simp del]

definition search_users :: "world \<Rightarrow> string \<Rightarrow> int \<Rightarrow> json list outcome \<times> world" where
  "search_users w location min_followers = search_loop w location min_followers 1 []"

section \<open>Collecting repositories\<close>

text \<open>
  The dictionary \<^verbatim>\<open>repo_data\<close> built from one entry \<^verbatim>\<open>repo\<close> of a listing:
  \<^verbatim>\<open>
  'login': username,
  'full_name': repo['full_name'],
  'created_at': repo['created_at'],
  'stargazers_count': repo['stargazers_count'],
  'watchers_count': repo['watchers_count'],
  'language': repo['language'] if repo['language'] else "",
  'has_projects': repo['has_projects'],
  'has_wiki': repo['has_wiki'],
  'license_name': repo['license']['key'] if repo.get('license') else ""
  \<close>
\<close>

definition license_name :: "json \<Rightarrow> error + json" where
  "license_name repo =
     and_then (get repo ''license'') (\<lambda>l.
       if truthy l
       then and_then (getitem repo ''license'') (\<lambda>license. getitem license ''key'')
       else Inr (JStr ''''))"

definition repo_data :: "json \<Rightarrow> json \<Rightarrow> error + json" where
  "repo_data username repo =
     and_then (getitem repo ''full_name'') (\<lambda>full_name.
     and_then (getitem repo ''created_at'') (\<lambda>created_at.
     and_then (getitem repo ''stargazers_count'') (\<lambda>stargazers_count.
     and_then (getitem repo ''watchers_count'') (\<lambda>watchers_count.
     and_then (getitem repo ''language'') (\<lambda>language.
     and_then (getitem repo ''has_projects'') (\<lambda>has_projects.
     and_then (getitem repo ''has_wiki'') (\<lambda>has_wiki.
     and_then (license_name repo) (\<lambda>license.
       Inr (JDict
         [(''login'', username),
          (''full_name'', full_name),
          (''created_at'', created_at),
          (''stargazers_count'', stargazers_count),
          (''watchers_count'', watchers_count),
          (''language'', or_empty language),
          (''has_projects'', has_projects),
          (''has_wiki'', has_wiki),
          (''license_name'', license)])))))))))"

text \<open>
  \<^verbatim>\<open>
  for repo in response:
      repo_data = {...}
      repos.append(repo_data)
  \<close>
\<close>

fun append_repos :: "json \<Rightarrow> json list \<Rightarrow> json list \<Rightarrow> error + json list" where
  "append_repos username [] repos = Inr repos"
| "append_repos username (repo # rest) repos =
     and_then (repo_data username repo) (\<lambda>d. append_repos username rest (repos @ [d]))"

text \<open>
  The slice \<^verbatim>\<open>xs[:n]\<close>: the first \<open>n\<close> elements, and for a negative \<open>n\<close> all but the last
  \<open>-n\<close>.
\<close>

definition slice_to :: "int \<Rightarrow> 'a list \<Rightarrow> 'a list" where
  "slice_to n xs = (if 0 \<le> n then take (nat n) xs else take (length xs - nat (- n)) xs)"

text \<open>
  \<^verbatim>\<open>
  def get_user_repositories(self, username, max_repos=500):
      repos = []
      page = 1
      while len(repos) < max_repos:
          params = {'sort': 'pushed', 'direction': 'desc', 'per_page': 100, 'page': page}
          url = f"{self.base_url}/users/{username}/repos"
          response = self._make_request(url, params)
          if not response:
              break
          for repo in response:
              ...
          if len(response) < 100:
              break
          page += 1
      return repos[:max_repos]
  \<close>
  After the \<^verbatim>\<open>for\<close> loop has run, \<^verbatim>\<open>len(response)\<close> is the number of elements iterated.
\<close>

function repos_loop :: "world \<Rightarrow> json \<Rightarrow> int \<Rightarrow> int \<Rightarrow> json list \<Rightarrow> json list outcome \<times> world" where
  "repos_loop w username max_repos page repos =
     (if \<not> int (length repos) < max_repos then (Returned repos, w)
      else
        (case make_request w (UserRepos username page) of
           (Returned response, w') \<Rightarrow>
             if \<not> truthy response then (Returned repos, w')
             else
               (case iter response of
                  Inl e \<Rightarrow> (Raised e, w')
                | Inr entries \<Rightarrow>
                    (case append_repos username entries repos of
                       Inl e \<Rightarrow> (Raised e, w')
                     | Inr repos' \<Rightarrow>
                         if length entries < 100 then (Returned repos', w')
                         else repos_loop w' username max_repos (page + 1) repos'))
         | (Raised e, w') \<Rightarrow> (Raised e, w')
         | (Waiting, w') \<Rightarrow> (Waiting, w')))"
  by pat_completeness auto
termination
proof (relation "measure (\<lambda>(w, username, max_repos, page, repos). length (script w))")
  show "wf (measure (\<lambda>(w, username, max_repos, page, repos). length (script w)))"
    by simp
next
  fix w :: world and username :: json and max_repos page :: int
    and repos repos' :: "json list" and r response w'
  assume "(r, w') = make_request w (UserRepos username page)"
    and "r = Returned response"
  then have "make_request w (UserRepos username page) = (Returned response, w')"
    by simp
  then have "length (script w') < length (script w)"
    by (rule make_request_script)
  then show "((w', username, max_repos, page + 1, repos'),
              (w, username, max_repos, page, repos))
             \<in> measure (\<lambda>(w, username, max_repos, page, repos). length (script w))"
    by simp
qed

declare repos_loop.simps [simp del]

definition get_user_repositories :: "world \<Rightarrow> json \<Rightarrow> int \<Rightarrow> json list outcome \<times> world" where
  "get_user_repositories w username max_repos =
     (case repos_loop w username max_repos 1 [] of
        (Returned repos, w') \<Rightarrow> (Returned (slice_to max_repos repos), w')
      | (Raised e, w') \<Rightarrow> (Raised e, w')
      | (Waiting, w') \<Rightarrow> (Waiting, w'))"

section \<open>A collection run\<close>

text \<open>
  \<^verbatim>\<open>
  all_repos = []
  for user in users:
      repos = scraper.get_user_repositories(user['login'])
      all_repos.extend(repos)
  \<close>
  The call leaves \<^verbatim>\<open>max_repos\<close> at its default of 500.
\<close>

fun collect_repos :: "world \<Rightarrow> json list \<Rightarrow> json list \<Rightarrow> json list outcome \<times> world" where
  "collect_repos w [] all_repos = (Returned all_repos, w)"
| "collect_repos w (user # rest) all_repos =
     (case getitem user ''login'' of
        Inl e \<Rightarrow> (Raised e, w)
      | Inr login \<Rightarrow>
          (case get_user_repositories w login 500 of
             (Returned repos, w') \<Rightarrow> collect_repos w' rest (all_repos @ repos)
           | (Raised e, w') \<Rightarrow> (Raised e, w')
           | (Waiting, w') \<Rightarrow> (Waiting, w')))"

text \<open>
  \<^verbatim>\<open>
  def main():
      token = input("Enter your GitHub token: ").strip()
      if not token:
          return
      scraper = GitHubScraper(token)
      users = scraper.search_users(location='Seattle', min_followers=200)
      users_df = pd.DataFrame(users); users_df.to_csv('users.csv', index=False)
      all_repos = []
      for user in users: ...
      repos_df = pd.DataFrame(all_repos); repos_df.to_csv('repositories.csv', index=False)
  \<close>
  The result of the model is the pair of tables the run writes, or \<open>None\<close> when the run
  ends for want of a token.
\<close>

definition main :: "world \<Rightarrow> string \<Rightarrow> (json list \<times> json list) option outcome \<times> world" where
  "main w typed =
     (let token = strip typed in
      if token = [] then (Returned None, w)
      else
        (case search_users w ''Seattle'' 200 of
           (Returned users, w') \<Rightarrow>
             (case collect_repos w' users [] of
                (Returned all_repos, w'') \<Rightarrow> (Returned (Some (users, all_repos)), w'')
              | (Raised e, w'') \<Rightarrow> (Raised e, w'')
              | (Waiting, w'') \<Rightarrow> (Waiting, w''))
         | (Raised e, w') \<Rightarrow> (Raised e, w')
         | (Waiting, w') \<Rightarrow> (Waiting, w')))"

section \<open>Queries over the tables\<close>

text \<open>
  Sorting in descending order of a key with \<^verbatim>\<open>reverse=True\<close>: Python reverses the list,
  sorts it stably in ascending order and reverses the result, which keeps elements of
  equal key in their original order.
\<close>

definition sorted_desc :: "('a \<Rightarrow> 'k::linorder) \<Rightarrow> 'a list \<Rightarrow> 'a list" where
  "sorted_desc key xs = rev (sort_key key (rev xs))"

text \<open>
  A row of \<^verbatim>\<open>users.csv\<close> as \<^verbatim>\<open>csv.DictReader\<close> yields it, with the columns this query reads;
  every row has all of them.
\<close>

record csv_row =
  row_login :: string
  row_location :: string
  row_followers :: int_text

text \<open>
  \<^verbatim>\<open>
  users_in_seattle = []
  for row in reader:
      location = row['location'].strip().lower()
      if 'seattle' in location:
          users_in_seattle.append({'login': row['login'], 'followers': int(row['followers'])})
  top_users = sorted(users_in_seattle, key=lambda x: x['followers'], reverse=True)
  top_5_logins = [user['login'] for user in top_users[:5]]
  \<close>
  A selected user is the pair of its login and its follower count.
\<close>

definition in_seattle :: "csv_row \<Rightarrow> bool" where
  "in_seattle row \<longleftrightarrow> sublist ''seattle'' (lower (strip (row_location row)))"

fun users_in_seattle :: "csv_row list \<Rightarrow> (string \<times> int) list \<Rightarrow> error + (string \<times> int) list" where
  "users_in_seattle [] acc = Inr acc"
| "users_in_seattle (row # rows) acc =
     (if in_seattle row
      then and_then (to_int (row_followers row))
             (\<lambda>n. users_in_seattle rows (acc @ [(row_login row, n)]))
      else users_in_seattle rows acc)"

definition top_users :: "(string \<times> int) list \<Rightarrow> (string \<times> int) list" where
  "top_users us = sorted_desc snd us"

definition top_5_logins :: "csv_row list \<Rightarrow> error + string list" where
  "top_5_logins table =
     and_then (users_in_seattle table []) (\<lambda>us. Inr (map fst (slice_to 5 (top_users us))))"

text \<open>
  A row of the users table with the columns of the leader-strength query. The counts
  are natural numbers, as the API reports them, so \<open>1 + following\<close> is never zero.
  \<^verbatim>\<open>
  users_df['leader_strength'] = users_df['followers'] / (1 + users_df['following'])
  top_5_leader_strength =
    users_df.sort_values(by='leader_strength', ascending=False).head(5)['login'].tolist()
  \<close>
  The quotient is taken in exact arithmetic. Rows of equal strength keep their order in
  the model; pandas does not promise an order among them.
\<close>

record df_row =
  df_login :: string
  df_followers :: nat
  df_following :: nat

definition leader_strength :: "df_row \<Rightarrow> rat" where
  "leader_strength row = of_nat (df_followers row) / (1 + of_nat (df_following row))"

definition top_5_leader_strength :: "df_row list \<Rightarrow> string list" where
  "top_5_leader_strength users_df = map df_login (take 5 (sorted_desc leader_strength users_df))"

section \<open>Replies of the API, by kind\<close>


text \<open>A reply that makes \<^verbatim>\<open>_make_request\<close> return \<open>j\<close>: status 200 with the JSON body \<open>j\<close>.\<close>

definition answers :: "exchange \<Rightarrow> json \<Rightarrow> bool" where
  "answers x j \<longleftrightarrow>
     (case reply x of
        Failure \<Rightarrow> False
      | Answer r \<Rightarrow> status_code r = 200 \<and> body r = Some j)"

section \<open>Sample data\<close>

text \<open>A reply of status 200 with the body \<open>j\<close>.\<close>

definition ok :: "json \<Rightarrow> exchange" where
  "ok j = \<lparr>reply = Answer \<lparr>status_code = 200, reset_header = None, body_text = [], body = Some j\<rparr>,
          now = 0\<rparr>"

text \<open>An entry of a repository listing, a search hit and a profile, as the API sends them.\<close>

definition sample_repo :: "string \<Rightarrow> json" where
  "sample_repo full_name = JDict
     [(''full_name'', JStr full_name),
      (''created_at'', JStr ''2020-01-02T03:04:05Z''),
      (''stargazers_count'', JInt 7),
      (''watchers_count'', JInt 7),
      (''language'', JNull),
      (''has_projects'', JBool True),
      (''has_wiki'', JBool False),
      (''license'', JDict [(''key'', JStr ''mit'')])]"

definition sample_hit :: "string \<Rightarrow> json" where
  "sample_hit login = JDict [(''login'', JStr login), (''url'', JStr (''/users/'' @ login))]"

definition sample_profile :: "string \<Rightarrow> json" where
  "sample_profile login = JDict
     [(''login'', JStr login),
      (''name'', JNull),
      (''company'', JStr ''@acme ''),
      (''location'', JStr ''Seattle, WA''),
      (''email'', JNull),
      (''hireable'', JNull),
      (''bio'', JStr ''''),
      (''public_repos'', JInt 3),
      (''followers'', JInt 250),
      (''following'', JInt 10),
      (''created_at'', JStr ''2015-06-07T08:09:10Z'')]"

text \<open>The records the collector makes of the sample repository and the sample profile.\<close>

definition sample_repo_data :: "string \<Rightarrow> string \<Rightarrow> json" where
  "sample_repo_data login full_name = JDict
     [(''login'', JStr login),
      (''full_name'', JStr full_name),
      (''created_at'', JStr ''2020-01-02T03:04:05Z''),
      (''stargazers_count'', JInt 7),
      (''watchers_count'', JInt 7),
      (''language'', JStr ''''),
      (''has_projects'', JBool True),
      (''has_wiki'', JBool False),
      (''license_name'', JStr ''mit'')]"

definition sample_cleaned_data :: "string \<Rightarrow> json" where
  "sample_cleaned_data login = JDict
     [(''login'', JStr login),
      (''name'', JStr ''''),
      (''company'', JStr ''ACME''),
      (''location'', JStr ''Seattle, WA''),
      (''email'', JStr ''''),
      (''hireable'', JBool False),
      (''bio'', JStr ''''),
      (''public_repos'', JInt 3),
      (''followers'', JInt 250),
      (''following'', JInt 10),
      (''created_at'', JStr ''2015-06-07T08:09:10Z'')]"

section \<open>Properties of the company normalisation\<close>

text \<open>
  On the texts of the collector, with the tables of ASCII, \<^verbatim>\<open>clean_company_name\<close> is the
  function above.
\<close>

lemma strip_strip_by: "strip s = strip_by isspace s"
  by (simp add: strip_def lstrip_space_def rstrip_space_def strip_by_def)

lemma clean_company_name_str:
  "clean_company_name (JStr s) = Inr (clean_company_name_str isspace upper CHR ''@'' (Some s))"
  "clean_company_name JNull = Inr (clean_company_name_str isspace upper CHR ''@'' None)"
  by (simp_all add: clean_company_name_str_def strip_strip_by)

lemma rev_dropWhile_takeWhile:
  "u = rev (dropWhile P (rev u)) @ rev (takeWhile P (rev u))"
proof -
  have "rev (takeWhile P (rev u) @ dropWhile P (rev u)) = u"
    by (simp only: takeWhile_dropWhile_id rev_rev_ident)
  then show ?thesis
    by (simp only: rev_append)
qed

lemma dropWhile_strip_by:
  "dropWhile space s = strip_by space s @ rev (takeWhile space (rev (dropWhile space s)))"
  unfolding strip_by_def by (rule rev_dropWhile_takeWhile)

lemma strip_by_decomp:
  "\<exists>pre suf. s = pre @ strip_by space s @ suf \<and> (\<forall>c\<in>set pre. space c) \<and> (\<forall>c\<in>set suf. space c)"
proof -
  let ?suf = "rev (takeWhile space (rev (dropWhile space s)))"
  have "s = takeWhile space s @ dropWhile space s"
    by simp
  then have "s = takeWhile space s @ strip_by space s @ ?suf"
    using dropWhile_strip_by [of space s] by simp
  moreover have "\<forall>c\<in>set (takeWhile space s). space c"
    by (auto dest: set_takeWhileD)
  moreover have "\<forall>c\<in>set ?suf. space c"
    by (auto dest: set_takeWhileD)
  ultimately show ?thesis by blast
qed

lemma strip_by_last: "strip_by space s \<noteq> [] \<Longrightarrow> \<not> space (last (strip_by space s))"
  by (simp add: strip_by_def last_rev hd_dropWhile)

lemma strip_by_hd:
  assumes "strip_by space s \<noteq> []"
  shows "\<not> space (hd (strip_by space s))"
proof -
  from assms dropWhile_strip_by [of space s]
  have "hd (dropWhile space s) = hd (strip_by space s)" "dropWhile space s \<noteq> []"
    by (metis hd_append2, metis append_is_Nil_conv)
  then show ?thesis
    by (metis hd_dropWhile)
qed

lemma lstrip_at_decomp:
  "\<exists>k. t = replicate k at_sign @ lstrip [at_sign] t"
proof -
  let ?run = "takeWhile (\<lambda>c. c \<in> set [at_sign]) t"
  have "?run = replicate (length ?run) at_sign"
    by (rule replicate_length_same [symmetric]) (auto dest: set_takeWhileD)
  moreover have "t = ?run @ lstrip [at_sign] t"
    by (simp add: lstrip_def)
  ultimately have "t = replicate (length ?run) at_sign @ lstrip [at_sign] t"
    by simp
  then show ?thesis ..
qed

lemma lstrip_at_hd: "lstrip [at_sign] t \<noteq> [] \<Longrightarrow> hd (lstrip [at_sign] t) \<noteq> at_sign"
  unfolding lstrip_def using hd_dropWhile [of "\<lambda>c. c \<in> set [at_sign]" t] by simp

lemma lstrip_single:
  "\<not> prefix [at_sign, at_sign] t \<Longrightarrow> lstrip [at_sign] t = strip_single_at at_sign t"
proof (cases t)
  case Nil
  then show ?thesis by (simp add: lstrip_def)
next
  case (Cons c cs)
  assume "\<not> prefix [at_sign, at_sign] t"
  with Cons show ?thesis
    by (cases cs) (auto simp: lstrip_def)
qed

text \<open>
  C1, as stated: the company is trimmed, a single leading \<^verbatim>\<open>@\<close> is stripped and the
  remainder is uppercased. The code strips every leading \<^verbatim>\<open>@\<close>: on \<^verbatim>\<open>@@acme\<close> it returns
  \<^verbatim>\<open>ACME\<close>, where the stated normalisation gives \<^verbatim>\<open>@ACME\<close>.
\<close>

theorem clean_company_name_single_at_counterexample:
  "clean_company_name (JStr ''@@acme'') = Inr ''ACME'' \<and>
   clean_company_name_str isspace upper CHR ''@'' (Some ''@@acme'') = ''ACME'' \<and>
   spec_clean_company_name isspace upper CHR ''@'' (Some ''@@acme'') = ''@ACME''"
  by (simp add: clean_company_name_str_def spec_clean_company_name_def strip_by_def
      strip_def lstrip_space_def rstrip_space_def isspace_def lstrip_def upper_def
      toupper_def lower_case_def upper_case_def)

text \<open>
  C1, amended, for every string over every alphabet, whatever the library takes for
  whitespace and for upper case. For an absent (\<^verbatim>\<open>None\<close>) or empty company the result is the
  empty string. Every other string \<open>s\<close> splits into leading whitespace, a run of \<^verbatim>\<open>@\<close>
  signs, a remainder that does not begin with \<^verbatim>\<open>@\<close>, and trailing whitespace, where the
  part between the two stretches of whitespace neither begins nor ends with whitespace;
  the result is the remainder in upper case. So all leading \<^verbatim>\<open>@\<close> signs are stripped, not
  a single one, and the result is the stated normalisation whenever the trimmed text does
  not begin with two \<^verbatim>\<open>@\<close> signs.
\<close>

theorem clean_company_name_strips_leading_ats:
  "clean_company_name_str space up at_sign None = [] \<and>
   clean_company_name_str space up at_sign (Some []) = [] \<and>
   (s \<noteq> [] \<longrightarrow>
     (\<exists>pre k rest suf.
        s = pre @ replicate k at_sign @ rest @ suf \<and>
        (\<forall>c\<in>set pre. space c) \<and> (\<forall>c\<in>set suf. space c) \<and>
        (replicate k at_sign @ rest = [] \<or>
         \<not> space (hd (replicate k at_sign @ rest)) \<and> \<not> space (last (replicate k at_sign @ rest))) \<and>
        (rest = [] \<or> hd rest \<noteq> at_sign) \<and>
        clean_company_name_str space up at_sign (Some s) = up rest)) \<and>
   (\<not> prefix [at_sign, at_sign] (strip_by space s) \<longrightarrow>
      clean_company_name_str space up at_sign (Some s) =
      spec_clean_company_name space up at_sign (Some s))"
proof (intro conjI impI)
  show "clean_company_name_str space up at_sign None = []"
    by (simp add: clean_company_name_str_def)
  show "clean_company_name_str space up at_sign (Some []) = []"
    by (simp add: clean_company_name_str_def)
next
  assume ne: "s \<noteq> []"
  define trimmed where "trimmed = strip_by space s"
  define rest where "rest = lstrip [at_sign] trimmed"
  obtain pre suf where s: "s = pre @ trimmed @ suf"
    and pre: "\<forall>c\<in>set pre. space c" and suf: "\<forall>c\<in>set suf. space c"
    unfolding trimmed_def using strip_by_decomp [of s space] by blast
  obtain k where t: "trimmed = replicate k at_sign @ rest"
    unfolding rest_def using lstrip_at_decomp [of trimmed at_sign] by blast
  have "trimmed = [] \<or> \<not> space (hd trimmed) \<and> \<not> space (last trimmed)"
    unfolding trimmed_def using strip_by_hd [of space s] strip_by_last [of space s] by blast
  then have ends: "replicate k at_sign @ rest = [] \<or>
       \<not> space (hd (replicate k at_sign @ rest)) \<and>
       \<not> space (last (replicate k at_sign @ rest))"
    unfolding t .
  have rest: "rest = [] \<or> hd rest \<noteq> at_sign"
    unfolding rest_def using lstrip_at_hd [of at_sign trimmed] by blast
  from ne have val: "clean_company_name_str space up at_sign (Some s) = up rest"
    by (simp add: clean_company_name_str_def rest_def trimmed_def)
  from s have "s = pre @ replicate k at_sign @ rest @ suf"
    unfolding t by simp
  with pre suf ends rest val
  show "\<exists>pre k rest suf.
        s = pre @ replicate k at_sign @ rest @ suf \<and>
        (\<forall>c\<in>set pre. space c) \<and> (\<forall>c\<in>set suf. space c) \<and>
        (replicate k at_sign @ rest = [] \<or>
         \<not> space (hd (replicate k at_sign @ rest)) \<and> \<not> space (last (replicate k at_sign @ rest))) \<and>
        (rest = [] \<or> hd rest \<noteq> at_sign) \<and>
        clean_company_name_str space up at_sign (Some s) = up rest"
    by (intro exI [of _ pre] exI [of _ k] exI [of _ rest] exI [of _ suf] conjI)
next
  assume "\<not> prefix [at_sign, at_sign] (strip_by space s)"
  then have "lstrip [at_sign] (strip_by space s) = strip_single_at at_sign (strip_by space s)"
    by (rule lstrip_single)
  then show "clean_company_name_str space up at_sign (Some s) =
      spec_clean_company_name space up at_sign (Some s)"
    by (simp add: clean_company_name_str_def spec_clean_company_name_def)
qed

text \<open>An ASCII company with one \<^verbatim>\<open>@\<close> sign, under the tables of ASCII.\<close>

theorem clean_company_name_strips_leading_ats_witness:
  "''  @Acme Inc '' \<noteq> [] \<and>
   \<not> prefix [CHR ''@'', CHR ''@''] (strip_by isspace ''  @Acme Inc '') \<and>
   clean_company_name_str isspace upper CHR ''@'' (Some ''  @Acme Inc '') =
   spec_clean_company_name isspace upper CHR ''@'' (Some ''  @Acme Inc '') \<and>
   spec_clean_company_name isspace upper CHR ''@'' (Some ''  @Acme Inc '') = ''ACME INC''"
proof -
  have h: "\<not> prefix [CHR ''@'', CHR ''@''] (strip_by isspace ''  @Acme Inc '')"
    by (simp add: strip_by_def isspace_def)
  have v: "spec_clean_company_name isspace upper CHR ''@'' (Some ''  @Acme Inc '') = ''ACME INC''"
    by (simp add: spec_clean_company_name_def strip_by_def isspace_def upper_def
        toupper_def lower_case_def upper_case_def)
  from h v clean_company_name_strips_leading_ats
    [of isspace upper "CHR ''@''" "''  @Acme Inc ''"]
  show ?thesis by simp
qed

section \<open>Properties of a request\<close>








text \<open>
  C3: a response whose status is neither 200 nor 403 should make the request fail at
  once. \<^verbatim>\<open>raise_for_status\<close> raises only for a status from 400 to 599; for these the request
  does fail at once, with the status and the body.
\<close>

lemma make_request_fails_on_error_status:
  "reply x = Answer r \<Longrightarrow> 400 \<le> status_code r \<Longrightarrow> status_code r < 600 \<Longrightarrow>
   status_code r \<noteq> 403 \<Longrightarrow>
   make_request \<lparr>script = x # rest, sent = sn, slept = sl\<rparr> req =
     (Raised (HTTPError (status_code r) (body_text r)),
      \<lparr>script = rest, sent = sn @ [req], slept = sl\<rparr>)"
  by (simp add: make_request_def raise_for_status_def)

text \<open>
  C3 at a response of status 202: the error is logged, nothing is raised, and the loop
  sends the request again without sleeping; the call returns the body of the next
  response.
\<close>

theorem make_request_retries_on_status_202:
  "make_request
     \<lparr>script = [\<lparr>reply = Answer \<lparr>status_code = 202, reset_header = None,
                  body_text = ''{}'', body = Some (JDict [])\<rparr>, now = 0\<rparr>,
                \<lparr>reply = Answer \<lparr>status_code = 200, reset_header = None,
                  body_text = ''[]'', body = Some (JList [])\<rparr>, now = 1\<rparr>],
      sent = [], slept = []\<rparr> (UserRepos (JStr ''a'') 1)
   = (Returned (JList []),
      \<lparr>script = [], sent = [UserRepos (JStr ''a'') 1, UserRepos (JStr ''a'') 1], slept = []\<rparr>)"
  by (simp add: make_request_def raise_for_status_def)

section \<open>Properties of the repository listing\<close>

lemma and_then_Inr:
  "and_then r f = Inr y \<longleftrightarrow> (\<exists>x. r = Inr x \<and> f x = Inr y)"
  by (cases r) (simp_all add: and_then_def)

lemma repo_data_login:
  "repo_data username repo = Inr d \<Longrightarrow> getitem d ''login'' = Inr username"
  by (auto simp: repo_data_def and_then_Inr)

lemma append_repos_appends:
  "append_repos username entries repos = Inr repos' \<Longrightarrow>
   \<exists>new. repos' = repos @ new \<and> length new = length entries \<and>
     (\<forall>d\<in>set new. getitem d ''login'' = Inr username)"
proof (induction entries arbitrary: repos)
  case Nil
  then show ?case by simp
next
  case (Cons e entries)
  from Cons.prems obtain d where d: "repo_data username e = Inr d"
    and rest: "append_repos username entries (repos @ [d]) = Inr repos'"
    by (auto simp: and_then_Inr)
  from Cons.IH [OF rest] obtain new where "repos' = (repos @ [d]) @ new"
    "length new = length entries" "\<forall>d\<in>set new. getitem d ''login'' = Inr username"
    by blast
  with repo_data_login [OF d] show ?case
    by (intro exI [of _ "d # new"]) simp
qed

lemma iter_falsy: "\<not> truthy v \<Longrightarrow> iter v = Inr entries \<Longrightarrow> entries = []"
  by (cases v) auto

lemma repos_loop_cap:
  "max_repos \<le> int (length repos) \<Longrightarrow>
   repos_loop w username max_repos page repos = (Returned repos, w)"
  by (simp add: repos_loop.simps)

lemma repos_loop_short_page:
  assumes "int (length repos) < max_repos"
    and "make_request w (UserRepos username page) = (Returned response, w1)"
    and "iter response = Inr entries"
    and "length entries < 100"
    and "append_repos username entries repos = Inr repos1"
  shows "repos_loop w username max_repos page repos = (Returned repos1, w1)"
proof (cases "truthy response")
  case True
  with assms show ?thesis
    by (simp add: repos_loop.simps [of w])
next
  case False
  from False assms(3) have "entries = []"
    by (rule iter_falsy)
  with assms(5) have "repos1 = repos"
    by simp
  with False assms(1,2) show ?thesis
    by (simp add: repos_loop.simps [of w])
qed

lemma repos_loop_false_page:
  assumes "int (length repos) < max_repos"
    and "make_request w (UserRepos username page) = (Returned response, w1)"
    and "\<not> truthy response"
  shows "repos_loop w username max_repos page repos = (Returned repos, w1)"
  using assms by (simp add: repos_loop.simps [of w])

lemma repos_loop_full_page:
  assumes "int (length repos) < max_repos"
    and "make_request w (UserRepos username page) = (Returned response, w1)"
    and "iter response = Inr entries"
    and "\<not> length entries < 100"
    and "append_repos username entries repos = Inr repos1"
  shows "repos_loop w username max_repos page repos =
         repos_loop w1 username max_repos (page + 1) repos1"
proof -
  from assms(3,4) have "truthy response"
    by (cases "truthy response") (auto dest: iter_falsy)
  with assms show ?thesis
    by (simp add: repos_loop.simps [of w])
qed

text \<open>
  One turn of the loop, whatever its outcome: the cap is reached and nothing is sent; or
  the turn ends the loop in the world the request has left; or a full page has been
  appended and the loop goes on.
\<close>

lemma repos_loop_cases:
  assumes "repos_loop w username max_repos page repos = (r, w')"
  obtains (cap) "max_repos \<le> int (length repos)" "r = Returned repos" "w' = w"
  | (stop) r1 where "int (length repos) < max_repos"
      "make_request w (UserRepos username page) = (r1, w')"
      "\<And>acc. r = Returned acc \<Longrightarrow>
         acc = repos \<or> (\<exists>entries. append_repos username entries repos = Inr acc)"
      "r = Waiting \<Longrightarrow> r1 = Waiting"
  | (continue) response w1 entries repos1 where "int (length repos) < max_repos"
      "make_request w (UserRepos username page) = (Returned response, w1)"
      "truthy response" "iter response = Inr entries"
      "append_repos username entries repos = Inr repos1" "\<not> length entries < 100"
      "repos_loop w1 username max_repos (page + 1) repos1 = (r, w')"
proof (cases "int (length repos) < max_repos")
  case False
  with assms have "r = Returned repos" "w' = w"
    by (simp_all add: repos_loop.simps [of w])
  with False show ?thesis
    by (intro cap) simp_all
next
  case lt: True
  obtain r1 w1 where m: "make_request w (UserRepos username page) = (r1, w1)"
    by (cases "make_request w (UserRepos username page)")
  show ?thesis
  proof (cases r1)
    case (Raised e)
    with assms lt m show ?thesis
      by (intro stop [of r1]) (auto simp: repos_loop.simps [of w])
  next
    case Waiting
    with assms lt m show ?thesis
      by (intro stop [of r1]) (auto simp: repos_loop.simps [of w])
  next
    case (Returned response)
    show ?thesis
    proof (cases "truthy response")
      case False
      with assms lt m Returned show ?thesis
        by (intro stop [of r1]) (auto simp: repos_loop.simps [of w])
    next
      case t: True
      show ?thesis
      proof (cases "iter response")
        case (Inl e)
        with assms lt m Returned t show ?thesis
          by (intro stop [of r1]) (auto simp: repos_loop.simps [of w])
      next
        case e: (Inr entries)
        show ?thesis
        proof (cases "append_repos username entries repos")
          case (Inl e')
          with assms lt m Returned t e show ?thesis
            by (intro stop [of r1]) (auto simp: repos_loop.simps [of w])
        next
          case a: (Inr repos1)
          show ?thesis
          proof (cases "length entries < 100")
            case True
            with assms lt m Returned t e a show ?thesis
              by (intro stop [of r1]) (auto simp: repos_loop.simps [of w])
          next
            case False
            with assms lt m Returned t e a
            have "repos_loop w1 username max_repos (page + 1) repos1 = (r, w')"
              by (simp add: repos_loop.simps [of w])
            with lt m Returned t e a False show ?thesis
              by (intro continue) simp_all
          qed
        qed
      qed
    qed
  qed
qed

lemma repos_loop_induct [case_names turn]:
  assumes "\<And>w username max_repos page repos.
     (\<And>response w1 entries repos1.
        int (length repos) < max_repos \<Longrightarrow>
        make_request w (UserRepos username page) = (Returned response, w1) \<Longrightarrow>
        truthy response \<Longrightarrow> iter response = Inr entries \<Longrightarrow>
        append_repos username entries repos = Inr repos1 \<Longrightarrow>
        \<not> length entries < 100 \<Longrightarrow>
        P w1 username max_repos (page + 1) repos1) \<Longrightarrow>
     P w username max_repos page repos"
  shows "P w username max_repos page repos"
proof (induction w username max_repos page repos rule: repos_loop.induct)
  case (1 w username max_repos page repos)
  show ?case
  proof (rule assms)
    fix response w1 entries repos1
    assume "int (length repos) < max_repos"
      "make_request w (UserRepos username page) = (Returned response, w1)"
      "truthy response" "iter response = Inr entries"
      "append_repos username entries repos = Inr repos1"
      "\<not> length entries < 100"
    then show "P w1 username max_repos (page + 1) repos1"
      by (intro "1.IH" [of "Returned response" w1 response entries repos1]) simp_all
  qed
qed

lemma repos_loop_logins:
  "repos_loop w username max_repos page repos = (Returned acc, w') \<Longrightarrow>
   \<forall>d\<in>set repos. getitem d ''login'' = Inr username \<Longrightarrow>
   \<forall>d\<in>set acc. getitem d ''login'' = Inr username"
proof (induction w username max_repos page repos rule: repos_loop_induct)
  case (turn w username max_repos page repos)
  from turn.prems(1) show ?case
  proof (cases rule: repos_loop_cases)
    case cap
    with turn.prems(2) show ?thesis by simp
  next
    case (stop r1)
    from stop(3) [OF refl] turn.prems(2) show ?thesis
      by (auto dest!: append_repos_appends)
  next
    case (continue response w1 entries repos1)
    from append_repos_appends [OF continue(5)] turn.prems(2)
    have "\<forall>d\<in>set repos1. getitem d ''login'' = Inr username"
      by auto
    with continue show ?thesis
      by (intro turn.IH [of response w1 entries repos1])
  qed
qed

lemma set_slice_to: "set (slice_to n xs) \<subseteq> set xs"
  by (auto simp: slice_to_def dest: in_set_takeD)

lemma get_user_repositories_Returned:
  assumes "get_user_repositories w username max_repos = (Returned repos, w')"
  shows "\<exists>acc. repos_loop w username max_repos 1 [] = (Returned acc, w') \<and>
           repos = slice_to max_repos acc"
proof -
  obtain r w1 where l: "repos_loop w username max_repos 1 [] = (r, w1)"
    by (cases "repos_loop w username max_repos 1 []")
  with assms show ?thesis
    by (cases r) (simp_all add: get_user_repositories_def)
qed

lemma get_user_repositories_login:
  assumes "get_user_repositories w username max_repos = (Returned repos, w')"
  shows "\<forall>d\<in>set repos. getitem d ''login'' = Inr username"
proof -
  from get_user_repositories_Returned [OF assms] obtain acc
    where "repos_loop w username max_repos 1 [] = (Returned acc, w')"
      and "repos = slice_to max_repos acc"
    by blast
  with repos_loop_logins [of w username max_repos 1 "[]" acc w'] set_slice_to [of max_repos acc]
  show ?thesis by auto
qed

text \<open>
  C10: with \<open>max_repos \<le> 0\<close> the loop condition fails at once; the call sends no request
  (the world is unchanged) and returns the empty list.
\<close>

theorem get_user_repositories_no_request:
  "max_repos \<le> 0 \<Longrightarrow> get_user_repositories w username max_repos = (Returned [], w)"
  by (simp add: get_user_repositories_def repos_loop_cap slice_to_def)

theorem get_user_repositories_no_request_witness:
  "(- 3 :: int) \<le> 0 \<and>
   get_user_repositories \<lparr>script = [ok (JList [sample_repo ''a/x''])], sent = [], slept = []\<rparr>
     (JStr ''a'') (- 3) =
   (Returned [], \<lparr>script = [ok (JList [sample_repo ''a/x''])], sent = [], slept = []\<rparr>)"
proof -
  have h: "(- 3 :: int) \<le> 0" by simp
  from h get_user_repositories_no_request [OF h] show ?thesis by blast
qed

text \<open>
  C4, as stated: at most \<open>max_repos\<close> records are returned, for every \<open>max_repos\<close>. For a
  negative \<open>max_repos\<close> the call returns the empty list, whose length 0 is above
  \<open>max_repos\<close>.
\<close>

theorem get_user_repositories_negative_max_repos_counterexample:
  "get_user_repositories \<lparr>script = [], sent = [], slept = []\<rparr> (JStr ''a'') (- 1) =
     (Returned [], \<lparr>script = [], sent = [], slept = []\<rparr>) \<and>
   \<not> int (length ([] :: json list)) \<le> - 1"
  by (simp add: get_user_repositories_def repos_loop_cap slice_to_def)

text \<open>
  C4, amended: whenever \<^verbatim>\<open>get_user_repositories\<close> returns, it returns at most
  \<open>max max_repos 0\<close> records: the first \<open>max_repos\<close> of the records \<open>acc\<close> its loop has
  gathered, and exactly \<open>max max_repos 0\<close> of them when the loop has gathered that many or
  more.
\<close>

theorem get_user_repositories_at_most_max_repos:
  assumes "get_user_repositories w username max_repos = (Returned repos, w')"
  shows "int (length repos) \<le> max max_repos 0 \<and>
         (\<exists>acc. repos_loop w username max_repos 1 [] = (Returned acc, w') \<and>
            repos = take (nat max_repos) acc \<and>
            (max_repos \<le> int (length acc) \<longrightarrow> int (length repos) = max max_repos 0))"
proof -
  from get_user_repositories_Returned [OF assms] obtain acc
    where l: "repos_loop w username max_repos 1 [] = (Returned acc, w')"
      and s: "repos = slice_to max_repos acc"
    by blast
  have t: "repos = take (nat max_repos) acc"
  proof (cases "0 \<le> max_repos")
    case True
    with s show ?thesis by (simp add: slice_to_def)
  next
    case False
    with l have "acc = []" by (simp add: repos_loop_cap)
    with s show ?thesis by (simp add: slice_to_def)
  qed
  then have "int (length repos) \<le> max max_repos 0" by auto
  moreover from t have "max_repos \<le> int (length acc) \<longrightarrow> int (length repos) = max max_repos 0"
    by auto
  ultimately show ?thesis using l t by blast
qed

text \<open>A page of two entries under a cap of one: the second entry is cut off.\<close>

theorem get_user_repositories_at_most_max_repos_witness:
  "get_user_repositories
     \<lparr>script = [ok (JList [sample_repo ''a/x'', sample_repo ''a/y''])], sent = [], slept = []\<rparr>
     (JStr ''a'') 1 =
   (Returned [sample_repo_data ''a'' ''a/x''],
    \<lparr>script = [], sent = [UserRepos (JStr ''a'') 1], slept = []\<rparr>) \<and>
   (\<exists>acc. repos_loop
        \<lparr>script = [ok (JList [sample_repo ''a/x'', sample_repo ''a/y''])], sent = [], slept = []\<rparr>
        (JStr ''a'') 1 1 [] =
      (Returned acc, \<lparr>script = [], sent = [UserRepos (JStr ''a'') 1], slept = []\<rparr>) \<and>
      length acc = 2)"
proof -
  have run: "get_user_repositories
     \<lparr>script = [ok (JList [sample_repo ''a/x'', sample_repo ''a/y''])], sent = [], slept = []\<rparr>
     (JStr ''a'') 1 =
   (Returned [sample_repo_data ''a'' ''a/x''],
    \<lparr>script = [], sent = [UserRepos (JStr ''a'') 1], slept = []\<rparr>)"
    by (simp add: get_user_repositories_def repos_loop.simps make_request_def ok_def
        sample_repo_def sample_repo_data_def repo_data_def license_name_def and_then_def
        or_empty_def slice_to_def)
  have loop: "repos_loop
        \<lparr>script = [ok (JList [sample_repo ''a/x'', sample_repo ''a/y''])], sent = [], slept = []\<rparr>
        (JStr ''a'') 1 1 [] =
      (Returned [sample_repo_data ''a'' ''a/x'', sample_repo_data ''a'' ''a/y''],
       \<lparr>script = [], sent = [UserRepos (JStr ''a'') 1], slept = []\<rparr>)"
    by (simp add: repos_loop.simps make_request_def ok_def sample_repo_def
        sample_repo_data_def repo_data_def license_name_def and_then_def or_empty_def)
  from get_user_repositories_at_most_max_repos [OF run] run loop
  show ?thesis by simp
qed

section \<open>Properties of the queries\<close>

text \<open>
  C8: on the table of the scenario the leader strengths are \<open>500 / 11\<close> for \<^verbatim>\<open>a\<close> and \<open>100\<close>
  for \<^verbatim>\<open>b\<close>, and the ranking in descending order of leader strength puts \<^verbatim>\<open>b\<close> before
  \<^verbatim>\<open>a\<close>.
\<close>

theorem leader_strength_ranks_b_before_a:
  "leader_strength \<lparr>df_login = ''a'', df_followers = 500, df_following = 10\<rparr> = 500 / 11 \<and>
   leader_strength \<lparr>df_login = ''b'', df_followers = 100, df_following = 0\<rparr> = 100 \<and>
   top_5_leader_strength
     [\<lparr>df_login = ''a'', df_followers = 500, df_following = 10\<rparr>,
      \<lparr>df_login = ''b'', df_followers = 100, df_following = 0\<rparr>] = [''b'', ''a'']"
  by (simp add: top_5_leader_strength_def sorted_desc_def leader_strength_def)

lemma sorted_desc_mset: "mset (sorted_desc key xs) = mset xs"
  by (simp add: sorted_desc_def)

lemma sorted_desc_sorted: "sorted_wrt (\<lambda>x y. key x \<ge> key y) (sorted_desc key xs)"
proof -
  have "sorted (map key (sort_key key (rev xs)))"
    by (rule sorted_sort_key)
  then have "sorted_wrt (\<lambda>x y. key x \<le> key y) (sort_key key (rev xs))"
    by (simp add: sorted_wrt_map)
  then show ?thesis
    by (simp add: sorted_desc_def sorted_wrt_rev)
qed

lemma sorted_desc_stable:
  "filter (\<lambda>x. key x = k) (sorted_desc key xs) = filter (\<lambda>x. key x = k) xs"
proof -
  have "filter (\<lambda>x. key x = k) (sort_key key (rev xs)) = filter (\<lambda>x. key x = k) (rev xs)"
    by (rule sort_key_stable)
  then have "rev (filter (\<lambda>x. key x = k) (sort_key key (rev xs))) = filter (\<lambda>x. key x = k) xs"
    by (simp add: rev_filter)
  then show ?thesis
    by (simp add: sorted_desc_def rev_filter)
qed

lemma sorted_desc_unique:
  assumes m: "mset ys = mset xs"
    and s: "sorted_wrt (\<lambda>x y. key x \<ge> key y) ys"
    and f: "\<And>k. filter (\<lambda>x. key x = k) ys = filter (\<lambda>x. key x = k) xs"
  shows "ys = sorted_desc key xs"
proof -
  have "sort_key key (rev xs) = rev ys"
  proof (rule properties_for_sort_key)
    show "mset (rev ys) = mset (rev xs)"
      using m by simp
    show "sorted (map key (rev ys))"
      using s by (simp add: sorted_wrt_map sorted_wrt_rev flip: rev_map)
    fix k
    have "filter (\<lambda>x. key x = key k) (rev ys) = filter (\<lambda>x. key x = key k) (rev xs)"
      using f [of "key k"] by (simp flip: rev_filter)
    then show "filter (\<lambda>x. key k = key x) (rev ys) = filter (\<lambda>x. key k = key x) (rev xs)"
      by (simp add: eq_commute)
  qed
  then show ?thesis
    by (simp add: sorted_desc_def)
qed

lemma users_in_seattle_selected:
  "users_in_seattle table acc = Inr us \<Longrightarrow>
   \<exists>sel. us = acc @ sel \<and>
     list_all2 (\<lambda>row u. fst u = row_login row \<and> row_followers row = IntText (snd u))
       (filter in_seattle table) sel"
proof (induction table arbitrary: acc)
  case Nil
  then show ?case by simp
next
  case (Cons row rows)
  show ?case
  proof (cases "in_seattle row")
    case False
    with Cons show ?thesis by simp
  next
    case True
    with Cons.prems obtain n where n: "to_int (row_followers row) = Inr n"
      and r: "users_in_seattle rows (acc @ [(row_login row, n)]) = Inr us"
      by (cases "to_int (row_followers row)") (simp_all add: and_then_def)
    from n have t: "row_followers row = IntText n"
      by (cases "row_followers row") simp_all
    from Cons.IH [OF r] obtain sel where "us = (acc @ [(row_login row, n)]) @ sel"
      "list_all2 (\<lambda>row u. fst u = row_login row \<and> row_followers row = IntText (snd u))
         (filter in_seattle rows) sel"
      by blast
    with True t show ?thesis
      by (intro exI [of _ "(row_login row, n) # sel"]) simp
  qed
qed

lemma isspace_tolower: "isspace (tolower c) = isspace c"
  by (auto simp: isspace_def tolower_def lower_case_def upper_case_def)

lemma strip_lower: "strip (lower s) = lower (strip s)"
  by (simp add: strip_def lstrip_space_def rstrip_space_def lower_def dropWhile_map rev_map
      comp_def isspace_tolower)

lemma in_seattle_lower:
  "lower (row_location r) = lower (row_location r') \<Longrightarrow> in_seattle r = in_seattle r'"
  by (simp add: in_seattle_def flip: strip_lower)

text \<open>
  C9: the query is a function of the table, and its result is fixed by the table alone.
  Whenever it returns, the logins are those of the first five of the ranked users, where
  the users \<open>us\<close> are the rows whose location contains \<^verbatim>\<open>seattle\<close> in any letter case, in
  the order of the table; the ranking \<open>top_users us\<close> holds the same users, in descending
  order of followers, with the users of any one follower count in their order in the
  table; and it is the only list with these three properties. Rows whose locations differ
  in letter case only are selected alike.
\<close>

theorem top_5_logins_stable_descending:
  assumes "top_5_logins table = Inr logins"
  shows "(\<exists>us. list_all2 (\<lambda>row u. fst u = row_login row \<and> row_followers row = IntText (snd u))
                 (filter in_seattle table) us \<and>
              logins = map fst (take 5 (top_users us)) \<and>
              mset (top_users us) = mset us \<and>
              sorted_wrt (\<lambda>u v. snd u \<ge> snd v) (top_users us) \<and>
              (\<forall>n. filter (\<lambda>u. snd u = n) (top_users us) = filter (\<lambda>u. snd u = n) us) \<and>
              (\<forall>ys. mset ys = mset us \<and> sorted_wrt (\<lambda>u v. snd u \<ge> snd v) ys \<and>
                    (\<forall>n. filter (\<lambda>u. snd u = n) ys = filter (\<lambda>u. snd u = n) us)
                    \<longrightarrow> ys = top_users us)) \<and>
         (\<forall>r r'. lower (row_location r) = lower (row_location r') \<longrightarrow>
                 in_seattle r = in_seattle r')"
proof -
  from assms obtain us where u: "users_in_seattle table [] = Inr us"
    and l: "logins = map fst (take 5 (top_users us))"
    by (cases "users_in_seattle table []") (auto simp: top_5_logins_def and_then_def slice_to_def)
  from users_in_seattle_selected [OF u]
  have "list_all2 (\<lambda>row u. fst u = row_login row \<and> row_followers row = IntText (snd u))
          (filter in_seattle table) us"
    by simp
  moreover have "\<forall>ys. mset ys = mset us \<and> sorted_wrt (\<lambda>u v. snd u \<ge> snd v) ys \<and>
                    (\<forall>n. filter (\<lambda>u. snd u = n) ys = filter (\<lambda>u. snd u = n) us)
                    \<longrightarrow> ys = top_users us"
    unfolding top_users_def by (auto intro: sorted_desc_unique)
  ultimately have "\<exists>us. list_all2 (\<lambda>row u. fst u = row_login row \<and> row_followers row = IntText (snd u))
                 (filter in_seattle table) us \<and>
              logins = map fst (take 5 (top_users us)) \<and>
              mset (top_users us) = mset us \<and>
              sorted_wrt (\<lambda>u v. snd u \<ge> snd v) (top_users us) \<and>
              (\<forall>n. filter (\<lambda>u. snd u = n) (top_users us) = filter (\<lambda>u. snd u = n) us) \<and>
              (\<forall>ys. mset ys = mset us \<and> sorted_wrt (\<lambda>u v. snd u \<ge> snd v) ys \<and>
                    (\<forall>n. filter (\<lambda>u. snd u = n) ys = filter (\<lambda>u. snd u = n) us)
                    \<longrightarrow> ys = top_users us)"
    using l unfolding top_users_def
    by (intro exI [of _ us]) (simp add: sorted_desc_mset sorted_desc_sorted sorted_desc_stable)
  then show ?thesis
    by (auto dest: in_seattle_lower)
qed

theorem top_5_logins_stable_descending_witness:
  "top_5_logins
     [\<lparr>row_login = ''x'', row_location = ''Seattle'', row_followers = IntText 10\<rparr>,
      \<lparr>row_login = ''y'', row_location = ''Portland, OR'', row_followers = IntText 99\<rparr>,
      \<lparr>row_login = ''z'', row_location = ''SEATTLE, WA'', row_followers = IntText 10\<rparr>,
      \<lparr>row_login = ''w'', row_location = '' seattle '', row_followers = IntText 50\<rparr>]
   = Inr [''w'', ''x'', ''z''] \<and>
   (\<exists>us. [''w'', ''x'', ''z''] = map fst (take 5 (top_users us)) \<and>
         mset (top_users us) = mset us \<and>
         sorted_wrt (\<lambda>u v. snd u \<ge> snd v) (top_users us) \<and>
         (\<forall>n. filter (\<lambda>u. snd u = n) (top_users us) = filter (\<lambda>u. snd u = n) us))"
proof -
  have run: "top_5_logins
     [\<lparr>row_login = ''x'', row_location = ''Seattle'', row_followers = IntText 10\<rparr>,
      \<lparr>row_login = ''y'', row_location = ''Portland, OR'', row_followers = IntText 99\<rparr>,
      \<lparr>row_login = ''z'', row_location = ''SEATTLE, WA'', row_followers = IntText 10\<rparr>,
      \<lparr>row_login = ''w'', row_location = '' seattle '', row_followers = IntText 50\<rparr>]
   = Inr [''w'', ''x'', ''z'']"
    by (simp add: top_5_logins_def in_seattle_def sublist_code lower_def tolower_def
        lower_case_def upper_case_def strip_def lstrip_space_def rstrip_space_def isspace_def
        and_then_def top_users_def sorted_desc_def slice_to_def)
  from top_5_logins_stable_descending [OF run] obtain us where
    "[''w'', ''x'', ''z''] = map fst (take 5 (top_users us))"
    "mset (top_users us) = mset us"
    "sorted_wrt (\<lambda>u v. snd u \<ge> snd v) (top_users us)"
    "\<forall>n. filter (\<lambda>u. snd u = n) (top_users us) = filter (\<lambda>u. snd u = n) us"
    by (elim exE conjE)
  with run show ?thesis
    by (intro conjI exI [of _ us])
qed

section \<open>Properties of the user search\<close>

lemma request_loop_world:
  "request_loop req xs sn sl = (r, w') \<Longrightarrow>
   suffix (script w') xs \<and> (\<exists>n. sent w' = sn @ replicate (Suc n) req) \<and>
   (\<forall>j. r = Returned j \<longrightarrow> (\<exists>x\<in>set xs. answers x j))"
proof (induction xs arbitrary: sn sl)
  case Nil
  then show ?case
    by (auto intro: exI [of _ 0])
next
  case (Cons x xs)
  have "(\<exists>sl'. request_loop req xs (sn @ [req]) sl' = (r, w')) \<or>
        script w' = xs \<and> sent w' = sn @ [req] \<and> (\<forall>j. r = Returned j \<longrightarrow> answers x j)"
    using Cons.prems
    by (auto simp: answers_def split: reply.splits if_splits option.splits sum.splits)
  then show ?case
  proof
    assume "\<exists>sl'. request_loop req xs (sn @ [req]) sl' = (r, w')"
    then obtain sl' where "request_loop req xs (sn @ [req]) sl' = (r, w')" ..
    from Cons.IH [OF this] obtain n where "suffix (script w') xs"
      "sent w' = (sn @ [req]) @ replicate (Suc n) req"
      "\<forall>j. r = Returned j \<longrightarrow> (\<exists>x\<in>set xs. answers x j)"
      by blast
    then show ?thesis
      by (auto simp: suffix_Cons replicate_app_Cons_same intro: exI [of _ "Suc n"])
  next
    assume "script w' = xs \<and> sent w' = sn @ [req] \<and> (\<forall>j. r = Returned j \<longrightarrow> answers x j)"
    then show ?thesis
      by (auto simp: suffix_Cons intro: exI [of _ 0])
  qed
qed

lemma make_request_world:
  assumes "make_request w req = (r, w')"
  shows "suffix (script w') (script w)"
    and "\<exists>n. sent w' = sent w @ replicate (Suc n) req"
    and "r = Returned j \<Longrightarrow> \<exists>x\<in>set (script w). answers x j"
  using request_loop_world [OF assms [unfolded make_request_def]] by blast+

lemma cleaned_data_fields:
  assumes "cleaned_data user_data = Inr u"
  obtains login name raw_company company location email hireable bio public_repos
    followers following created_at
  where "getitem user_data ''login'' = Inr login"
    and "getitem user_data ''name'' = Inr name"
    and "get user_data ''company'' = Inr raw_company"
    and "clean_company_name raw_company = Inr company"
    and "getitem user_data ''location'' = Inr location"
    and "getitem user_data ''email'' = Inr email"
    and "getitem user_data ''hireable'' = Inr hireable"
    and "getitem user_data ''bio'' = Inr bio"
    and "u = JDict
         [(''login'', login),
          (''name'', or_empty name),
          (''company'', JStr company),
          (''location'', or_empty location),
          (''email'', or_empty email),
          (''hireable'', or_false hireable),
          (''bio'', or_empty bio),
          (''public_repos'', public_repos),
          (''followers'', followers),
          (''following'', following),
          (''created_at'', created_at)]"
  using assms unfolding cleaned_data_def and_then_Inr by blast

text \<open>
  What a record of \<^verbatim>\<open>search_users\<close> is made from: a profile that a reply of the script
  carries and that has every field the record needs.
\<close>

lemma fetch_profiles_world:
  "fetch_profiles w hits users = (r, w') \<Longrightarrow>
   suffix (script w') (script w) \<and>
   (\<exists>new. sent w' = sent w @ new \<and> (\<forall>q\<in>set new. \<exists>url. q = Profile url)) \<and>
   (\<forall>users'. r = Returned users' \<longrightarrow>
      (\<exists>new. users' = users @ new \<and>
         (\<forall>u\<in>set new. \<exists>user_data.
            (\<exists>x\<in>set (script w). answers x user_data) \<and> cleaned_data user_data = Inr u)))"
proof (induction hits arbitrary: w users)
  case Nil
  then show ?case by auto
next
  case (Cons hit hits)
  show ?case
  proof (cases "getitem hit ''url''")
    case (Inl e)
    with Cons.prems show ?thesis by auto
  next
    case (Inr url)
    obtain r1 w1 where m: "make_request w (Profile url) = (r1, w1)"
      by (cases "make_request w (Profile url)")
    from make_request_world [OF m]
    obtain n where w1: "suffix (script w1) (script w)"
      "sent w1 = sent w @ replicate (Suc n) (Profile url)"
      "\<And>j. r1 = Returned j \<Longrightarrow> \<exists>x\<in>set (script w). answers x j"
      by blast
    have stop: ?thesis if "w' = w1" "\<And>users'. r \<noteq> Returned users'"
      using that w1 by auto
    show ?thesis
    proof (cases r1)
      case (Raised e)
      with Cons.prems Inr m show ?thesis
        by (intro stop) auto
    next
      case Waiting
      with Cons.prems Inr m show ?thesis
        by (intro stop) auto
    next
      case (Returned user_data)
      show ?thesis
      proof (cases "cleaned_data user_data")
        case (Inl e)
        with Cons.prems Inr m Returned w1 show ?thesis
          by auto
      next
        case c: (Inr c)
        with Cons.prems Inr m Returned
        have "fetch_profiles w1 hits (users @ [c]) = (r, w')"
          by simp
        from Cons.IH [OF this] obtain new where
          s: "suffix (script w') (script w1)"
          and n: "sent w' = sent w1 @ new" "\<forall>q\<in>set new. \<exists>url. q = Profile url"
          and u: "\<And>users'. r = Returned users' \<Longrightarrow>
             \<exists>new. users' = (users @ [c]) @ new \<and>
               (\<forall>u\<in>set new. \<exists>user_data.
                  (\<exists>x\<in>set (script w1). answers x user_data) \<and> cleaned_data user_data = Inr u)"
          by blast
        from s w1(1) have "suffix (script w') (script w)"
          by (rule suffix_order.trans)
        moreover from n w1(2)
        have "\<exists>new. sent w' = sent w @ new \<and> (\<forall>q\<in>set new. \<exists>url. q = Profile url)"
          by (intro exI [of _ "replicate (Suc n) (Profile url) @ new"]) auto
        moreover have "\<exists>new. users' = users @ new \<and>
               (\<forall>u\<in>set new. \<exists>user_data.
                  (\<exists>x\<in>set (script w). answers x user_data) \<and> cleaned_data user_data = Inr u)"
          if "r = Returned users'" for users'
        proof -
          from u [OF that] obtain new' where new': "users' = (users @ [c]) @ new'"
            "\<forall>u\<in>set new'. \<exists>user_data.
                  (\<exists>x\<in>set (script w1). answers x user_data) \<and> cleaned_data user_data = Inr u"
            by blast
          from w1(1) have "set (script w1) \<subseteq> set (script w)"
            by (rule set_mono_suffix)
          with new'(2) have "\<forall>u\<in>set new'. \<exists>user_data.
                  (\<exists>x\<in>set (script w). answers x user_data) \<and> cleaned_data user_data = Inr u"
            by (meson subsetD)
          moreover from w1(3) [OF Returned] c
          have "\<exists>user_data. (\<exists>x\<in>set (script w). answers x user_data) \<and>
                  cleaned_data user_data = Inr c"
            by blast
          ultimately show ?thesis
            using new'(1) by (intro exI [of _ "c # new'"]) simp
        qed
        ultimately show ?thesis by blast
      qed
    qed
  qed
qed

lemma search_loop_cases:
  assumes "search_loop w location min_followers page users = (r, w')"
  obtains (stop) r1 where
      "make_request w (SearchUsers location min_followers page) = (r1, w')"
      "\<And>users'. r = Returned users' \<Longrightarrow> users' = users"
      "r = Waiting \<Longrightarrow> r1 = Waiting"
  | (fail) response w1 items hits where
      "make_request w (SearchUsers location min_followers page) = (Returned response, w1)"
      "getitem response ''items'' = Inr items" "truthy items" "iter items = Inr hits"
      "fetch_profiles w1 hits users = (r, w')" "\<And>users'. r \<noteq> Returned users'"
  | (continue) response w1 items hits users1 w2 where
      "make_request w (SearchUsers location min_followers page) = (Returned response, w1)"
      "getitem response ''items'' = Inr items" "truthy items" "iter items = Inr hits"
      "fetch_profiles w1 hits users = (Returned users1, w2)"
      "search_loop w2 location min_followers (page + 1) users1 = (r, w')"
proof -
  obtain r1 w1 where m: "make_request w (SearchUsers location min_followers page) = (r1, w1)"
    by (cases "make_request w (SearchUsers location min_followers page)")
  show ?thesis
  proof (cases r1)
    case (Raised e)
    with assms m show ?thesis
      by (intro stop [of r1]) (auto simp: search_loop.simps [of w])
  next
    case Waiting
    with assms m show ?thesis
      by (intro stop [of r1]) (auto simp: search_loop.simps [of w])
  next
    case (Returned response)
    show ?thesis
    proof (cases "getitem response ''items''")
      case (Inl e)
      with assms m Returned show ?thesis
        by (intro stop [of r1]) (auto simp: search_loop.simps [of w])
    next
      case i: (Inr items)
      show ?thesis
      proof (cases "truthy items")
        case False
        with assms m Returned i show ?thesis
          by (intro stop [of r1]) (auto simp: search_loop.simps [of w])
      next
        case t: True
        show ?thesis
        proof (cases "iter items")
          case (Inl e)
          with assms m Returned i t show ?thesis
            by (intro stop [of r1]) (auto simp: search_loop.simps [of w])
        next
          case h: (Inr hits)
          obtain r2 w2 where f: "fetch_profiles w1 hits users = (r2, w2)"
            by (cases "fetch_profiles w1 hits users")
          show ?thesis
          proof (cases r2)
            case (Raised e)
            with assms m Returned i t h f show ?thesis
              by (intro fail [of response w1 items hits])
                (auto simp: search_loop.simps [of w])
          next
            case Waiting
            with assms m Returned i t h f show ?thesis
              by (intro fail [of response w1 items hits])
                (auto simp: search_loop.simps [of w])
          next
            case r2: (Returned users1)
            with assms m Returned i t h f
            have "search_loop w2 location min_followers (page + 1) users1 = (r, w')"
              by (simp add: search_loop.simps [of w])
            with m Returned i t h f r2 show ?thesis
              by (intro continue) simp_all
          qed
        qed
      qed
    qed
  qed
qed

lemma search_loop_induct [case_names turn]:
  assumes "\<And>w location min_followers page users.
     (\<And>response w1 items hits users1 w2.
        make_request w (SearchUsers location min_followers page) = (Returned response, w1) \<Longrightarrow>
        getitem response ''items'' = Inr items \<Longrightarrow> truthy items \<Longrightarrow>
        iter items = Inr hits \<Longrightarrow>
        fetch_profiles w1 hits users = (Returned users1, w2) \<Longrightarrow>
        P w2 location min_followers (page + 1) users1) \<Longrightarrow>
     P w location min_followers page users"
  shows "P w location min_followers page users"
proof (induction w location min_followers page users rule: search_loop.induct)
  case (1 w location min_followers page users)
  show ?case
  proof (rule assms)
    fix response w1 items hits users1 w2
    assume "make_request w (SearchUsers location min_followers page) = (Returned response, w1)"
      "getitem response ''items'' = Inr items" "truthy items" "iter items = Inr hits"
      "fetch_profiles w1 hits users = (Returned users1, w2)"
    then show "P w2 location min_followers (page + 1) users1"
      by (intro "1.IH" [of "Returned response" w1 response items hits "Returned users1" w2 users1])
        simp_all
  qed
qed

lemma search_loop_world:
  "search_loop w location min_followers page users = (r, w') \<Longrightarrow>
   suffix (script w') (script w) \<and>
   (\<exists>more. sent w' = sent w @ SearchUsers location min_followers page # more \<and>
      (\<forall>username n. UserRepos username n \<notin> set more))"
proof (induction w location min_followers page users rule: search_loop_induct)
  case (turn w location min_followers page users)
  let ?req = "SearchUsers location min_followers page"
  have first: "\<exists>more. sent w' = sent w @ ?req # more \<and>
      (\<forall>username n. UserRepos username n \<notin> set more)"
    if "sent w1 = sent w @ replicate (Suc k) ?req" "sent w' = sent w1 @ new"
      "\<forall>username n. UserRepos username n \<notin> set new" for w1 :: world and k new
    using that by (intro exI [of _ "replicate k ?req @ new"]) auto
  from turn.prems show ?case
  proof (cases rule: search_loop_cases)
    case (stop r1)
    from make_request_world(1,2) [OF stop(1)] first [of w' _ "[]"] show ?thesis
      by auto
  next
    case (fail response w1 items hits)
    from make_request_world(1,2) [OF fail(1)] obtain k
      where 1: "suffix (script w1) (script w)" "sent w1 = sent w @ replicate (Suc k) ?req"
      by blast
    from fetch_profiles_world [OF fail(5)] obtain new
      where 2: "suffix (script w') (script w1)" "sent w' = sent w1 @ new"
        "\<forall>q\<in>set new. \<exists>url. q = Profile url"
      by blast
    from 2(3) have "\<forall>username n. UserRepos username n \<notin> set new"
      by auto
    with 1 2 first [of w1 k new] show ?thesis
      by (auto intro: suffix_order.trans)
  next
    case (continue response w1 items hits users1 w2)
    from make_request_world(1,2) [OF continue(1)] obtain k
      where 1: "suffix (script w1) (script w)" "sent w1 = sent w @ replicate (Suc k) ?req"
      by blast
    from fetch_profiles_world [OF continue(5)] obtain new
      where 2: "suffix (script w2) (script w1)" "sent w2 = sent w1 @ new"
        "\<forall>q\<in>set new. \<exists>url. q = Profile url"
      by blast
    from turn.IH [OF continue] obtain more
      where 3: "suffix (script w') (script w2)"
        "sent w' = sent w2 @ SearchUsers location min_followers (page + 1) # more"
        "\<forall>username n. UserRepos username n \<notin> set more"
      by blast
    from 2(3) 3(3) have "\<forall>username n. UserRepos username n \<notin>
        set (new @ SearchUsers location min_followers (page + 1) # more)"
      by auto
    with 1 2 3 first [of w1 k "new @ SearchUsers location min_followers (page + 1) # more"]
    show ?thesis
      by (auto intro: suffix_order.trans)
  qed
qed

lemma search_loop_users:
  "search_loop w location min_followers page users = (Returned users', w') \<Longrightarrow>
   \<exists>new. users' = users @ new \<and>
     (\<forall>u\<in>set new. \<exists>user_data.
        (\<exists>x\<in>set (script w). answers x user_data) \<and> cleaned_data user_data = Inr u)"
proof (induction w location min_followers page users rule: search_loop_induct)
  case (turn w location min_followers page users)
  from turn.prems show ?case
  proof (cases rule: search_loop_cases)
    case (stop r1)
    then show ?thesis by simp
  next
    case (fail response w1 items hits)
    from fail(6) show ?thesis by blast
  next
    case (continue response w1 items hits users1 w2)
    from make_request_world(1) [OF continue(1)]
    have 1: "set (script w1) \<subseteq> set (script w)"
      by (rule set_mono_suffix)
    from fetch_profiles_world [OF continue(5)] obtain new
      where 2: "suffix (script w2) (script w1)" "users1 = users @ new"
        "\<forall>u\<in>set new. \<exists>user_data.
            (\<exists>x\<in>set (script w1). answers x user_data) \<and> cleaned_data user_data = Inr u"
      by blast
    from 2(1) have 3: "set (script w2) \<subseteq> set (script w1)"
      by (rule set_mono_suffix)
    from turn.IH [OF continue] obtain new'
      where 4: "users' = users1 @ new'"
        "\<forall>u\<in>set new'. \<exists>user_data.
            (\<exists>x\<in>set (script w2). answers x user_data) \<and> cleaned_data user_data = Inr u"
      by blast
    from 1 2(3) have "\<forall>u\<in>set new. \<exists>user_data.
            (\<exists>x\<in>set (script w). answers x user_data) \<and> cleaned_data user_data = Inr u"
      by (meson subsetD)
    moreover from 1 3 4(2) have "\<forall>u\<in>set new'. \<exists>user_data.
            (\<exists>x\<in>set (script w). answers x user_data) \<and> cleaned_data user_data = Inr u"
      by (meson subsetD)
    ultimately show ?thesis
      using 2(2) 4(1) by (intro exI [of _ "new @ new'"]) auto
  qed
qed

text \<open>
  C6, amended to fields that are present. Every record \<open>u\<close> of \<^verbatim>\<open>search_users\<close> is made from
  a profile \<open>user_data\<close> that a reply of the script carries. That profile has the fields
  \<^verbatim>\<open>name\<close>, \<^verbatim>\<open>location\<close>, \<^verbatim>\<open>email\<close>, \<^verbatim>\<open>bio\<close> and \<^verbatim>\<open>hireable\<close> (a profile that lacks one
  gives no record); where one of the four texts is \<^verbatim>\<open>None\<close> or another false value the
  record holds the empty string, and where \<^verbatim>\<open>hireable\<close> is \<^verbatim>\<open>None\<close> the record holds
  \<^verbatim>\<open>False\<close>.
\<close>

theorem search_users_defaults:
  assumes "search_users w location min_followers = (Returned users, w')"
    and "u \<in> set users"
  shows "\<exists>user_data.
           (\<exists>x\<in>set (script w). answers x user_data) \<and> cleaned_data user_data = Inr u \<and>
           (\<forall>k\<in>set [''name'', ''location'', ''email'', ''bio''].
              \<exists>v. getitem user_data k = Inr v \<and>
                (\<not> truthy v \<longrightarrow> getitem u k = Inr (JStr ''''))) \<and>
           (\<exists>v. getitem user_data ''hireable'' = Inr v \<and>
              (v = JNull \<longrightarrow> getitem u ''hireable'' = Inr (JBool False)))"
proof -
  from search_loop_users [OF assms(1) [unfolded search_users_def]]
  have "\<forall>u\<in>set users. \<exists>user_data.
          (\<exists>x\<in>set (script w). answers x user_data) \<and> cleaned_data user_data = Inr u"
    by simp
  with assms(2) obtain user_data where x: "\<exists>x\<in>set (script w). answers x user_data"
    and c: "cleaned_data user_data = Inr u"
    by blast
  from c obtain login name raw_company company location email hireable bio public_repos
    followers following created_at
  where f: "getitem user_data ''name'' = Inr name"
    "getitem user_data ''location'' = Inr location"
    "getitem user_data ''email'' = Inr email"
    "getitem user_data ''hireable'' = Inr hireable"
    "getitem user_data ''bio'' = Inr bio"
    and u: "u = JDict
         [(''login'', login),
          (''name'', or_empty name),
          (''company'', JStr company),
          (''location'', or_empty location),
          (''email'', or_empty email),
          (''hireable'', or_false hireable),
          (''bio'', or_empty bio),
          (''public_repos'', public_repos),
          (''followers'', followers),
          (''following'', following),
          (''created_at'', created_at)]"
    by (rule cleaned_data_fields)
  have "\<forall>k\<in>set [''name'', ''location'', ''email'', ''bio''].
              \<exists>v. getitem user_data k = Inr v \<and>
                (\<not> truthy v \<longrightarrow> getitem u k = Inr (JStr ''''))"
    using f u by (simp add: or_empty_def)
  moreover have "\<exists>v. getitem user_data ''hireable'' = Inr v \<and>
              (v = JNull \<longrightarrow> getitem u ''hireable'' = Inr (JBool False))"
    using f u by (simp add: or_false_def)
  ultimately show ?thesis
    using x c by blast
qed

text \<open>
  C6, as stated: a missing field also gives the default. A profile without the key
  \<^verbatim>\<open>name\<close> gives no record: \<^verbatim>\<open>user_data['name']\<close> raises \<^verbatim>\<open>KeyError\<close> and the search ends
  with it.
\<close>

theorem search_users_missing_name_counterexample:
  "search_users
     \<lparr>script =
        [ok (JDict [(''items'', JList [sample_hit ''a''])]),
         ok (JDict
           [(''login'', JStr ''a''),
            (''company'', JNull),
            (''location'', JNull),
            (''email'', JNull),
            (''hireable'', JNull),
            (''bio'', JNull),
            (''public_repos'', JInt 3),
            (''followers'', JInt 250),
            (''following'', JInt 10),
            (''created_at'', JStr ''2015-06-07T08:09:10Z'')])],
      sent = [], slept = []\<rparr> ''Seattle'' 200 =
   (Raised (KeyError ''name''),
    \<lparr>script = [],
     sent = [SearchUsers ''Seattle'' 200 1, Profile (JStr ''/users/a'')], slept = []\<rparr>)"
  by (simp add: search_users_def search_loop.simps make_request_def ok_def sample_hit_def
      cleaned_data_def and_then_def)

lemma sample_search:
  "search_users
     \<lparr>script =
        [ok (JDict [(''items'', JList [sample_hit ''a''])]),
         ok (sample_profile ''a''),
         ok (JDict [(''items'', JList [])])] @ rest,
      sent = [], slept = []\<rparr> ''Seattle'' 200 =
   (Returned [sample_cleaned_data ''a''],
    \<lparr>script = rest,
     sent = [SearchUsers ''Seattle'' 200 1, Profile (JStr ''/users/a''),
             SearchUsers ''Seattle'' 200 2],
     slept = []\<rparr>)"
  by (simp add: search_users_def search_loop.simps make_request_def ok_def sample_hit_def
      sample_profile_def sample_cleaned_data_def cleaned_data_def and_then_def or_empty_def
      or_false_def strip_def lstrip_space_def rstrip_space_def isspace_def lstrip_def
      upper_def toupper_def lower_case_def upper_case_def)

theorem search_users_defaults_witness:
  "search_users
     \<lparr>script =
        [ok (JDict [(''items'', JList [sample_hit ''a''])]),
         ok (sample_profile ''a''),
         ok (JDict [(''items'', JList [])])],
      sent = [], slept = []\<rparr> ''Seattle'' 200 =
   (Returned [sample_cleaned_data ''a''],
    \<lparr>script = [],
     sent = [SearchUsers ''Seattle'' 200 1, Profile (JStr ''/users/a''),
             SearchUsers ''Seattle'' 200 2],
     slept = []\<rparr>) \<and>
   (\<exists>user_data.
      cleaned_data user_data = Inr (sample_cleaned_data ''a'') \<and>
      (\<exists>v. getitem user_data ''name'' = Inr v) \<and>
      (\<exists>v. getitem user_data ''hireable'' = Inr v)) \<and>
   getitem (sample_profile ''a'') ''name'' = Inr JNull \<and>
   getitem (sample_cleaned_data ''a'') ''name'' = Inr (JStr '''') \<and>
   getitem (sample_profile ''a'') ''hireable'' = Inr JNull \<and>
   getitem (sample_cleaned_data ''a'') ''hireable'' = Inr (JBool False)"
proof -
  have run: "search_users
     \<lparr>script =
        [ok (JDict [(''items'', JList [sample_hit ''a''])]),
         ok (sample_profile ''a''),
         ok (JDict [(''items'', JList [])])],
      sent = [], slept = []\<rparr> ''Seattle'' 200 =
   (Returned [sample_cleaned_data ''a''],
    \<lparr>script = [],
     sent = [SearchUsers ''Seattle'' 200 1, Profile (JStr ''/users/a''),
             SearchUsers ''Seattle'' 200 2],
     slept = []\<rparr>)"
    using sample_search [of "[]"] by simp
  have "sample_cleaned_data ''a'' \<in> set [sample_cleaned_data ''a'']"
    by simp
  from search_users_defaults [OF run this] obtain user_data
    where "cleaned_data user_data = Inr (sample_cleaned_data ''a'')"
      "\<exists>v. getitem user_data ''name'' = Inr v"
      "\<exists>v. getitem user_data ''hireable'' = Inr v"
    by auto
  then have "\<exists>user_data.
      cleaned_data user_data = Inr (sample_cleaned_data ''a'') \<and>
      (\<exists>v. getitem user_data ''name'' = Inr v) \<and>
      (\<exists>v. getitem user_data ''hireable'' = Inr v)"
    by blast
  with run show ?thesis
    by (simp add: sample_profile_def sample_cleaned_data_def)
qed

section \<open>Properties of a collection run\<close>

lemma repos_loop_world:
  "repos_loop w username max_repos page repos = (r, w') \<Longrightarrow>
   \<exists>new. sent w' = sent w @ new \<and> (\<forall>q\<in>set new. \<exists>n. q = UserRepos username n) \<and>
     (int (length repos) < max_repos \<longrightarrow> (\<exists>more. new = UserRepos username page # more))"
proof (induction w username max_repos page repos rule: repos_loop_induct)
  case (turn w username max_repos page repos)
  from turn.prems show ?case
  proof (cases rule: repos_loop_cases)
    case cap
    then show ?thesis by simp
  next
    case (stop r1)
    from make_request_world(2) [OF stop(2)] obtain k
      where "sent w' = sent w @ replicate (Suc k) (UserRepos username page)"
      by blast
    then show ?thesis
      by (intro exI [of _ "replicate (Suc k) (UserRepos username page)"]) auto
  next
    case (continue response w1 entries repos1)
    from make_request_world(2) [OF continue(2)] obtain k
      where 1: "sent w1 = sent w @ replicate (Suc k) (UserRepos username page)"
      by blast
    from turn.IH [OF continue] obtain new
      where 2: "sent w' = sent w1 @ new" "\<forall>q\<in>set new. \<exists>n. q = UserRepos username n"
      by blast
    from 1 2 show ?thesis
      by (intro exI [of _ "replicate (Suc k) (UserRepos username page) @ new"]) auto
  qed
qed

lemma get_user_repositories_world:
  assumes "get_user_repositories w username max_repos = (r, w')"
  shows "\<exists>new. sent w' = sent w @ new \<and> (\<forall>q\<in>set new. \<exists>n. q = UserRepos username n) \<and>
     (0 < max_repos \<longrightarrow> (\<exists>more. new = UserRepos username 1 # more))"
proof -
  obtain r1 w1 where l: "repos_loop w username max_repos 1 [] = (r1, w1)"
    by (cases "repos_loop w username max_repos 1 []")
  with assms have "w' = w1"
    by (cases r1) (simp_all add: get_user_repositories_def)
  with repos_loop_world [OF l] show ?thesis
    by simp
qed

lemma collect_repos_world:
  "collect_repos w users all_repos = (r, w') \<Longrightarrow>
   (\<exists>new. sent w' = sent w @ new \<and>
      (\<forall>q\<in>set new. \<exists>u\<in>set users. \<exists>login n. getitem u ''login'' = Inr login \<and>
         q = UserRepos login n)) \<and>
   (\<forall>all_repos'. r = Returned all_repos' \<longrightarrow>
      (\<exists>new. all_repos' = all_repos @ new \<and>
         (\<forall>d\<in>set new. \<exists>u\<in>set users. \<exists>login. getitem u ''login'' = Inr login \<and>
            getitem d ''login'' = Inr login)))"
proof (induction users arbitrary: w all_repos)
  case Nil
  then show ?case by auto
next
  case (Cons user rest)
  show ?case
  proof (cases "getitem user ''login''")
    case (Inl e)
    with Cons.prems show ?thesis by auto
  next
    case (Inr login)
    obtain r1 w1 where g: "get_user_repositories w login 500 = (r1, w1)"
      by (cases "get_user_repositories w login 500")
    from get_user_repositories_world [OF g] obtain new1
      where 1: "sent w1 = sent w @ new1" "\<forall>q\<in>set new1. \<exists>n. q = UserRepos login n"
      by blast
    show ?thesis
    proof (cases r1)
      case (Raised e)
      with Cons.prems Inr g 1 show ?thesis
        by (auto intro!: exI [of _ new1])
    next
      case Waiting
      with Cons.prems Inr g 1 show ?thesis
        by (auto intro!: exI [of _ new1])
    next
      case (Returned repos)
      with g have 2: "\<forall>d\<in>set repos. getitem d ''login'' = Inr login"
        by (auto dest: get_user_repositories_login)
      from Cons.prems Inr g Returned
      have "collect_repos w1 rest (all_repos @ repos) = (r, w')"
        by simp
      from Cons.IH [OF this] obtain new2
        where 3: "sent w' = sent w1 @ new2"
          "\<forall>q\<in>set new2. \<exists>u\<in>set rest. \<exists>login n. getitem u ''login'' = Inr login \<and>
             q = UserRepos login n"
          and 4: "\<And>all_repos'. r = Returned all_repos' \<Longrightarrow>
            \<exists>new. all_repos' = (all_repos @ repos) @ new \<and>
              (\<forall>d\<in>set new. \<exists>u\<in>set rest. \<exists>login. getitem u ''login'' = Inr login \<and>
                 getitem d ''login'' = Inr login)"
        by blast
      have "\<exists>new. sent w' = sent w @ new \<and>
        (\<forall>q\<in>set new. \<exists>u\<in>set (user # rest). \<exists>login n. getitem u ''login'' = Inr login \<and>
           q = UserRepos login n)"
        using 1 3 Inr by (intro exI [of _ "new1 @ new2"]) auto
      moreover have "\<exists>new. all_repos' = all_repos @ new \<and>
         (\<forall>d\<in>set new. \<exists>u\<in>set (user # rest). \<exists>login. getitem u ''login'' = Inr login \<and>
            getitem d ''login'' = Inr login)"
        if "r = Returned all_repos'" for all_repos'
      proof -
        from 4 [OF that] obtain new where "all_repos' = (all_repos @ repos) @ new"
          "\<forall>d\<in>set new. \<exists>u\<in>set rest. \<exists>login. getitem u ''login'' = Inr login \<and>
             getitem d ''login'' = Inr login"
          by blast
        with 2 Inr show ?thesis
          by (intro exI [of _ "repos @ new"]) auto
      qed
      ultimately show ?thesis by blast
    qed
  qed
qed

lemma main_cases:
  assumes "main w typed = (r, w')"
  obtains (no_token) "strip typed = []" "r = Returned None" "w' = w"
  | (no_users) r1 where "search_users w ''Seattle'' 200 = (r1, w')"
      "\<And>users. r1 \<noteq> Returned users" "\<And>tables. r \<noteq> Returned tables"
      "r = Waiting \<Longrightarrow> r1 = Waiting"
  | (users) users w1 r2 where "search_users w ''Seattle'' 200 = (Returned users, w1)"
      "collect_repos w1 users [] = (r2, w')"
      "\<And>tables. r = Returned tables \<Longrightarrow>
         \<exists>all_repos. r2 = Returned all_repos \<and> tables = Some (users, all_repos)"
      "r = Waiting \<Longrightarrow> r2 = Waiting"
proof (cases "strip typed = []")
  case True
  with assms show ?thesis
    by (intro no_token) (simp_all add: main_def)
next
  case token: False
  obtain r1 w1 where s: "search_users w ''Seattle'' 200 = (r1, w1)"
    by (cases "search_users w ''Seattle'' 200")
  show ?thesis
  proof (cases r1)
    case (Raised e)
    with assms token s show ?thesis
      by (intro no_users [of r1]) (auto simp: main_def)
  next
    case Waiting
    with assms token s show ?thesis
      by (intro no_users [of r1]) (auto simp: main_def)
  next
    case r1: (Returned users)
    obtain r2 w2 where c: "collect_repos w1 users [] = (r2, w2)"
      by (cases "collect_repos w1 users []")
    with assms token s r1 have "w2 = w'"
      by (cases r2) (simp_all add: main_def)
    moreover from assms token s r1 c
    have "\<exists>all_repos. r2 = Returned all_repos \<and> tables = Some (users, all_repos)"
      if "r = Returned tables" for tables
      using that by (cases r2) (auto simp: main_def)
    moreover from assms token s r1 c have "r2 = Waiting" if "r = Waiting"
      using that by (cases r2) (auto simp: main_def)
    ultimately show ?thesis
      using s r1 c by (intro users [of users w1 r2]) simp_all
  qed
qed

text \<open>
  C7. However a run ends, every repository listing it has requested is that of the login
  of a user that \<^verbatim>\<open>search_users\<close> returned in this run. When the run writes its tables,
  the users are those \<^verbatim>\<open>search_users\<close> returned and every repository record carries the
  login of one of them. Every record that \<^verbatim>\<open>get_user_repositories\<close> returns carries the
  \<^verbatim>\<open>username\<close> it was called with.
\<close>

theorem main_repository_logins_are_user_logins:
  assumes "main w typed = (r, w')"
  shows "(\<exists>new. sent w' = sent w @ new \<and>
            (\<forall>login n. UserRepos login n \<in> set new \<longrightarrow>
               (\<exists>users w1. search_users w ''Seattle'' 200 = (Returned users, w1) \<and>
                  (\<exists>u\<in>set users. getitem u ''login'' = Inr login)))) \<and>
         (\<forall>users all_repos. r = Returned (Some (users, all_repos)) \<longrightarrow>
            (\<exists>w1. search_users w ''Seattle'' 200 = (Returned users, w1)) \<and>
            (\<forall>d\<in>set all_repos. \<exists>u\<in>set users. \<exists>login.
               getitem u ''login'' = Inr login \<and> getitem d ''login'' = Inr login)) \<and>
         (\<forall>w0 username max_repos repos w0'.
            get_user_repositories w0 username max_repos = (Returned repos, w0') \<longrightarrow>
            (\<forall>d\<in>set repos. getitem d ''login'' = Inr username))"
proof (intro conjI)
  show "\<forall>w0 username max_repos repos w0'.
            get_user_repositories w0 username max_repos = (Returned repos, w0') \<longrightarrow>
            (\<forall>d\<in>set repos. getitem d ''login'' = Inr username)"
    by (intro allI impI) (rule get_user_repositories_login)
  from assms show "\<exists>new. sent w' = sent w @ new \<and>
            (\<forall>login n. UserRepos login n \<in> set new \<longrightarrow>
               (\<exists>users w1. search_users w ''Seattle'' 200 = (Returned users, w1) \<and>
                  (\<exists>u\<in>set users. getitem u ''login'' = Inr login)))"
  proof (cases rule: main_cases)
    case no_token
    then show ?thesis by simp
  next
    case (no_users r1)
    from search_loop_world [OF no_users(1) [unfolded search_users_def]] obtain more
      where "sent w' = sent w @ SearchUsers ''Seattle'' 200 1 # more"
        "\<forall>username n. UserRepos username n \<notin> set more"
      by blast
    then show ?thesis
      by (intro exI [of _ "SearchUsers ''Seattle'' 200 1 # more"]) simp
  next
    case (users users w1 r2)
    from search_loop_world [OF users(1) [unfolded search_users_def]] obtain more
      where 1: "sent w1 = sent w @ SearchUsers ''Seattle'' 200 1 # more"
        "\<forall>username n. UserRepos username n \<notin> set more"
      by blast
    from collect_repos_world [OF users(2)] obtain new
      where 2: "sent w' = sent w1 @ new"
        "\<forall>q\<in>set new. \<exists>u\<in>set users. \<exists>login n. getitem u ''login'' = Inr login \<and>
           q = UserRepos login n"
      by blast
    have "\<exists>users w1. search_users w ''Seattle'' 200 = (Returned users, w1) \<and>
            (\<exists>u\<in>set users. getitem u ''login'' = Inr login)"
      if "UserRepos login n \<in> set (SearchUsers ''Seattle'' 200 1 # more @ new)" for login n
    proof -
      from that 1(2) have "UserRepos login n \<in> set new"
        by simp
      with 2(2) have "\<exists>u\<in>set users. getitem u ''login'' = Inr login"
        by fastforce
      with users(1) show ?thesis by blast
    qed
    with 1(1) 2(1) show ?thesis
      by (intro exI [of _ "SearchUsers ''Seattle'' 200 1 # more @ new"]) simp
  qed
  show "\<forall>users all_repos. r = Returned (Some (users, all_repos)) \<longrightarrow>
            (\<exists>w1. search_users w ''Seattle'' 200 = (Returned users, w1)) \<and>
            (\<forall>d\<in>set all_repos. \<exists>u\<in>set users. \<exists>login.
               getitem u ''login'' = Inr login \<and> getitem d ''login'' = Inr login)"
  proof (intro allI impI)
    fix users all_repos
    assume r: "r = Returned (Some (users, all_repos))"
    from assms show "(\<exists>w1. search_users w ''Seattle'' 200 = (Returned users, w1)) \<and>
            (\<forall>d\<in>set all_repos. \<exists>u\<in>set users. \<exists>login.
               getitem u ''login'' = Inr login \<and> getitem d ''login'' = Inr login)"
    proof (cases rule: main_cases)
      case no_token
      with r show ?thesis by simp
    next
      case (no_users r1)
      with r show ?thesis by simp
    next
      case u: (users users1 w1 r2)
      from u(3) [OF r] have eq: "users1 = users" "r2 = Returned all_repos"
        by simp_all
      from collect_repos_world [OF u(2)] eq
      have "\<exists>new. all_repos = [] @ new \<and>
         (\<forall>d\<in>set new. \<exists>u\<in>set users. \<exists>login. getitem u ''login'' = Inr login \<and>
            getitem d ''login'' = Inr login)"
        by blast
      with u(1) eq show ?thesis
        by auto
    qed
  qed
qed

lemma sample_main:
  "main
     \<lparr>script =
        [ok (JDict [(''items'', JList [sample_hit ''a''])]),
         ok (sample_profile ''a''),
         ok (JDict [(''items'', JList [])]),
         ok (JList [sample_repo ''a/x'', sample_repo ''a/y''])],
      sent = [], slept = []\<rparr> ''token'' =
   (Returned (Some ([sample_cleaned_data ''a''],
                    [sample_repo_data ''a'' ''a/x'', sample_repo_data ''a'' ''a/y''])),
    \<lparr>script = [],
     sent = [SearchUsers ''Seattle'' 200 1, Profile (JStr ''/users/a''),
             SearchUsers ''Seattle'' 200 2, UserRepos (JStr ''a'') 1],
     slept = []\<rparr>)"
proof -
  have "collect_repos
     \<lparr>script = [ok (JList [sample_repo ''a/x'', sample_repo ''a/y''])],
      sent = [SearchUsers ''Seattle'' 200 1, Profile (JStr ''/users/a''),
              SearchUsers ''Seattle'' 200 2],
      slept = []\<rparr> [sample_cleaned_data ''a''] [] =
    (Returned [sample_repo_data ''a'' ''a/x'', sample_repo_data ''a'' ''a/y''],
     \<lparr>script = [],
      sent = [SearchUsers ''Seattle'' 200 1, Profile (JStr ''/users/a''),
              SearchUsers ''Seattle'' 200 2, UserRepos (JStr ''a'') 1],
      slept = []\<rparr>)"
    by (simp add: sample_cleaned_data_def get_user_repositories_def repos_loop.simps
        make_request_def ok_def sample_repo_def sample_repo_data_def repo_data_def
        license_name_def and_then_def or_empty_def slice_to_def)
  with sample_search [of "[ok (JList [sample_repo ''a/x'', sample_repo ''a/y''])]"]
  show ?thesis
    by (simp add: main_def strip_def lstrip_space_def rstrip_space_def isspace_def)
qed

theorem main_repository_logins_are_user_logins_witness:
  "main
     \<lparr>script =
        [ok (JDict [(''items'', JList [sample_hit ''a''])]),
         ok (sample_profile ''a''),
         ok (JDict [(''items'', JList [])]),
         ok (JList [sample_repo ''a/x'', sample_repo ''a/y''])],
      sent = [], slept = []\<rparr> ''token'' =
   (Returned (Some ([sample_cleaned_data ''a''],
                    [sample_repo_data ''a'' ''a/x'', sample_repo_data ''a'' ''a/y''])),
    \<lparr>script = [],
     sent = [SearchUsers ''Seattle'' 200 1, Profile (JStr ''/users/a''),
             SearchUsers ''Seattle'' 200 2, UserRepos (JStr ''a'') 1],
     slept = []\<rparr>) \<and>
   (\<exists>login. getitem (sample_cleaned_data ''a'') ''login'' = Inr login \<and>
            getitem (sample_repo_data ''a'' ''a/x'') ''login'' = Inr login) \<and>
   (\<exists>login. getitem (sample_cleaned_data ''a'') ''login'' = Inr login \<and>
            getitem (sample_repo_data ''a'' ''a/y'') ''login'' = Inr login)"
proof -
  from main_repository_logins_are_user_logins [OF sample_main]
  have "\<forall>d\<in>set [sample_repo_data ''a'' ''a/x'', sample_repo_data ''a'' ''a/y''].
          \<exists>u\<in>set [sample_cleaned_data ''a'']. \<exists>login.
            getitem u ''login'' = Inr login \<and> getitem d ''login'' = Inr login"
    by blast
  then have "\<exists>login. getitem (sample_cleaned_data ''a'') ''login'' = Inr login \<and>
            getitem (sample_repo_data ''a'' ''a/x'') ''login'' = Inr login"
    and "\<exists>login. getitem (sample_cleaned_data ''a'') ''login'' = Inr login \<and>
            getitem (sample_repo_data ''a'' ''a/y'') ''login'' = Inr login"
    by simp_all
  with sample_main show ?thesis
    by (intro conjI)
qed

section \<open>Properties of the pagination loops\<close>

lemma search_loop_empty_page:
  assumes "make_request w (SearchUsers location min_followers page) = (Returned response, w1)"
    and "getitem response ''items'' = Inr items"
    and "\<not> truthy items"
  shows "search_loop w location min_followers page users = (Returned users, w1)"
  using assms by (simp add: search_loop.simps [of w])

lemma search_loop_next_page:
  assumes "make_request w (SearchUsers location min_followers page) = (Returned response, w1)"
    and "getitem response ''items'' = Inr items"
    and "truthy items"
    and "iter items = Inr hits"
    and "fetch_profiles w1 hits users = (Returned users1, w2)"
  shows "search_loop w location min_followers page users =
         search_loop w2 location min_followers (page + 1) users1"
  using assms by (simp add: search_loop.simps [of w])

text \<open>
  C5, as stated: both loops end at the first page of fewer than 100 items, and both
  request at least one page. The user search goes on after a page of one hit and
  requests page 2; the repository listing with \<open>max_repos = 0\<close> requests no page.
\<close>

theorem pagination_short_page_counterexample:
  "search_users
     \<lparr>script =
        [ok (JDict [(''items'', JList [sample_hit ''a''])]),
         ok (sample_profile ''a''),
         ok (JDict [(''items'', JList [])])],
      sent = [], slept = []\<rparr> ''Seattle'' 200 =
   (Returned [sample_cleaned_data ''a''],
    \<lparr>script = [],
     sent = [SearchUsers ''Seattle'' 200 1, Profile (JStr ''/users/a''),
             SearchUsers ''Seattle'' 200 2],
     slept = []\<rparr>) \<and>
   get_user_repositories
     \<lparr>script = [ok (JList [sample_repo ''a/x''])], sent = [], slept = []\<rparr> (JStr ''a'') 0 =
   (Returned [], \<lparr>script = [ok (JList [sample_repo ''a/x''])], sent = [], slept = []\<rparr>)"
  using sample_search [of "[]"]
  by (simp add: get_user_repositories_def repos_loop_cap slice_to_def)

text \<open>
  C5, amended. The user search always requests page 1. It ends at the first page whose
  \<^verbatim>\<open>items\<close> are empty, with the users gathered so far and without a further request; after
  a page with items, however few, it requests the next page once the profiles are
  fetched. The repository listing requests page 1 when \<open>0 < max_repos\<close>. It requests
  nothing more once \<open>max_repos\<close> records are gathered; otherwise it ends after the first
  page of fewer than 100 entries (an empty page among them), and after a page of 100
  entries or more it goes on with the next page.
\<close>

theorem pagination_loops_end:
  "(\<exists>more. sent (snd (search_users w location min_followers)) =
      sent w @ SearchUsers location min_followers 1 # more) \<and>
   (make_request w (SearchUsers location min_followers page) = (Returned response, w1) \<and>
    getitem response ''items'' = Inr items \<and> \<not> truthy items \<longrightarrow>
      search_loop w location min_followers page users = (Returned users, w1)) \<and>
   (make_request w (SearchUsers location min_followers page) = (Returned response, w1) \<and>
    getitem response ''items'' = Inr items \<and> truthy items \<and> iter items = Inr hits \<and>
    fetch_profiles w1 hits users = (Returned users1, w2) \<longrightarrow>
      search_loop w location min_followers page users =
        search_loop w2 location min_followers (page + 1) users1 \<and>
      (\<exists>more. sent (snd (search_loop w location min_followers page users)) =
         sent w2 @ SearchUsers location min_followers (page + 1) # more)) \<and>
   (0 < max_repos \<longrightarrow>
      (\<exists>more. sent (snd (get_user_repositories v username max_repos)) =
         sent v @ UserRepos username 1 # more)) \<and>
   (max_repos \<le> int (length repos) \<longrightarrow>
      repos_loop v username max_repos n repos = (Returned repos, v)) \<and>
   (int (length repos) < max_repos \<and>
    make_request v (UserRepos username n) = (Returned listing, v1) \<and>
    iter listing = Inr entries \<and> append_repos username entries repos = Inr repos1 \<longrightarrow>
      (if length entries < 100
       then repos_loop v username max_repos n repos = (Returned repos1, v1)
       else repos_loop v username max_repos n repos =
            repos_loop v1 username max_repos (n + 1) repos1))"
proof (intro conjI impI)
  obtain r w' where s: "search_users w location min_followers = (r, w')"
    by (cases "search_users w location min_followers")
  from search_loop_world [OF s [unfolded search_users_def]] s
  show "\<exists>more. sent (snd (search_users w location min_followers)) =
      sent w @ SearchUsers location min_followers 1 # more"
    by auto
next
  assume "make_request w (SearchUsers location min_followers page) = (Returned response, w1) \<and>
    getitem response ''items'' = Inr items \<and> \<not> truthy items"
  then show "search_loop w location min_followers page users = (Returned users, w1)"
    by (elim conjE) (rule search_loop_empty_page)
next
  assume a: "make_request w (SearchUsers location min_followers page) = (Returned response, w1) \<and>
    getitem response ''items'' = Inr items \<and> truthy items \<and> iter items = Inr hits \<and>
    fetch_profiles w1 hits users = (Returned users1, w2)"
  then show n: "search_loop w location min_followers page users =
        search_loop w2 location min_followers (page + 1) users1"
    by (elim conjE) (rule search_loop_next_page)
  obtain r w' where s: "search_loop w2 location min_followers (page + 1) users1 = (r, w')"
    by (cases "search_loop w2 location min_followers (page + 1) users1")
  from search_loop_world [OF s] n s
  show "\<exists>more. sent (snd (search_loop w location min_followers page users)) =
         sent w2 @ SearchUsers location min_followers (page + 1) # more"
    by auto
next
  assume "0 < max_repos"
  obtain r v' where g: "get_user_repositories v username max_repos = (r, v')"
    by (cases "get_user_repositories v username max_repos")
  from get_user_repositories_world [OF g] g \<open>0 < max_repos\<close>
  show "\<exists>more. sent (snd (get_user_repositories v username max_repos)) =
         sent v @ UserRepos username 1 # more"
    by auto
next
  assume "max_repos \<le> int (length repos)"
  then show "repos_loop v username max_repos n repos = (Returned repos, v)"
    by (rule repos_loop_cap)
next
  assume a: "int (length repos) < max_repos \<and>
    make_request v (UserRepos username n) = (Returned listing, v1) \<and>
    iter listing = Inr entries \<and> append_repos username entries repos = Inr repos1"
  show "if length entries < 100
       then repos_loop v username max_repos n repos = (Returned repos1, v1)
       else repos_loop v username max_repos n repos =
            repos_loop v1 username max_repos (n + 1) repos1"
  proof (cases "length entries < 100")
    case True
    with a repos_loop_short_page [of repos max_repos v username n listing v1 entries repos1]
    show ?thesis by simp
  next
    case False
    with a repos_loop_full_page [of repos max_repos v username n listing v1 entries repos1]
    show ?thesis by simp
  qed
qed

text \<open>
  A page of one hit, after which the search goes on, and a page of two repositories,
  after which the listing ends.
\<close>

theorem pagination_loops_end_witness:
  "make_request
     \<lparr>script = [ok (JDict [(''items'', JList [sample_hit ''a''])]), ok (sample_profile ''a'')],
      sent = [], slept = []\<rparr> (SearchUsers ''Seattle'' 200 1) =
   (Returned (JDict [(''items'', JList [sample_hit ''a''])]),
    \<lparr>script = [ok (sample_profile ''a'')], sent = [SearchUsers ''Seattle'' 200 1],
     slept = []\<rparr>) \<and>
   fetch_profiles
     \<lparr>script = [ok (sample_profile ''a'')], sent = [SearchUsers ''Seattle'' 200 1],
      slept = []\<rparr> [sample_hit ''a''] [] =
   (Returned [sample_cleaned_data ''a''],
    \<lparr>script = [],
     sent = [SearchUsers ''Seattle'' 200 1, Profile (JStr ''/users/a'')], slept = []\<rparr>) \<and>
   search_loop
     \<lparr>script = [ok (JDict [(''items'', JList [sample_hit ''a''])]), ok (sample_profile ''a'')],
      sent = [], slept = []\<rparr> ''Seattle'' 200 1 [] =
   search_loop
     \<lparr>script = [],
      sent = [SearchUsers ''Seattle'' 200 1, Profile (JStr ''/users/a'')], slept = []\<rparr>
     ''Seattle'' 200 2 [sample_cleaned_data ''a''] \<and>
   make_request
     \<lparr>script = [ok (JList [sample_repo ''a/x'', sample_repo ''a/y''])], sent = [], slept = []\<rparr>
     (UserRepos (JStr ''a'') 1) =
   (Returned (JList [sample_repo ''a/x'', sample_repo ''a/y'']),
    \<lparr>script = [], sent = [UserRepos (JStr ''a'') 1], slept = []\<rparr>) \<and>
   repos_loop
     \<lparr>script = [ok (JList [sample_repo ''a/x'', sample_repo ''a/y''])], sent = [], slept = []\<rparr>
     (JStr ''a'') 5 1 [] =
   (Returned [sample_repo_data ''a'' ''a/x'', sample_repo_data ''a'' ''a/y''],
    \<lparr>script = [], sent = [UserRepos (JStr ''a'') 1], slept = []\<rparr>)"
proof -
  have 1: "make_request
     \<lparr>script = [ok (JDict [(''items'', JList [sample_hit ''a''])]), ok (sample_profile ''a'')],
      sent = [], slept = []\<rparr> (SearchUsers ''Seattle'' 200 1) =
   (Returned (JDict [(''items'', JList [sample_hit ''a''])]),
    \<lparr>script = [ok (sample_profile ''a'')], sent = [SearchUsers ''Seattle'' 200 1],
     slept = []\<rparr>)"
    by (simp add: make_request_def ok_def)
  have 2: "fetch_profiles
     \<lparr>script = [ok (sample_profile ''a'')], sent = [SearchUsers ''Seattle'' 200 1],
      slept = []\<rparr> [sample_hit ''a''] [] =
   (Returned [sample_cleaned_data ''a''],
    \<lparr>script = [],
     sent = [SearchUsers ''Seattle'' 200 1, Profile (JStr ''/users/a'')], slept = []\<rparr>)"
    by (simp add: make_request_def ok_def sample_hit_def
      sample_profile_def sample_cleaned_data_def cleaned_data_def and_then_def or_empty_def
      or_false_def strip_def lstrip_space_def rstrip_space_def isspace_def lstrip_def
      upper_def toupper_def lower_case_def upper_case_def)
  have 3: "make_request
     \<lparr>script = [ok (JList [sample_repo ''a/x'', sample_repo ''a/y''])], sent = [], slept = []\<rparr>
     (UserRepos (JStr ''a'') 1) =
   (Returned (JList [sample_repo ''a/x'', sample_repo ''a/y'']),
    \<lparr>script = [], sent = [UserRepos (JStr ''a'') 1], slept = []\<rparr>)"
    by (simp add: make_request_def ok_def)
  have 4: "append_repos (JStr ''a'') [sample_repo ''a/x'', sample_repo ''a/y''] [] =
    Inr [sample_repo_data ''a'' ''a/x'', sample_repo_data ''a'' ''a/y'']"
    by (simp add: sample_repo_def sample_repo_data_def repo_data_def license_name_def
        and_then_def or_empty_def)
  from 1 2 3 4
    pagination_loops_end [where w = "\<lparr>script = [ok (JDict [(''items'', JList [sample_hit ''a''])]),
        ok (sample_profile ''a'')], sent = [], slept = []\<rparr>"
      and location = "''Seattle''" and min_followers = 200 and page = 1
      and response = "JDict [(''items'', JList [sample_hit ''a''])]"
      and ?w1.0 = "\<lparr>script = [ok (sample_profile ''a'')], sent = [SearchUsers ''Seattle'' 200 1],
        slept = []\<rparr>"
      and items = "JList [sample_hit ''a'']" and hits = "[sample_hit ''a'']" and users = "[]"
      and ?users1.0 = "[sample_cleaned_data ''a'']"
      and ?w2.0 = "\<lparr>script = [],
        sent = [SearchUsers ''Seattle'' 200 1, Profile (JStr ''/users/a'')], slept = []\<rparr>"
      and v = "\<lparr>script = [ok (JList [sample_repo ''a/x'', sample_repo ''a/y''])],
        sent = [], slept = []\<rparr>"
      and username = "JStr ''a''" and max_repos = 5 and n = 1 and repos = "[]"
      and listing = "JList [sample_repo ''a/x'', sample_repo ''a/y'']"
      and ?v1.0 = "\<lparr>script = [], sent = [UserRepos (JStr ''a'') 1], slept = []\<rparr>"
      and entries = "[sample_repo ''a/x'', sample_repo ''a/y'']"
      and ?repos1.0 = "[sample_repo_data ''a'' ''a/x'', sample_repo_data ''a'' ''a/y'']"]
  show ?thesis
    by simp
qed

section \<open>Waiting\<close>

text \<open>
  A call is left waiting only when the replies of the script are used up: with a reply
  to every request it sends, each operation returns or raises.
\<close>

lemma request_loop_Waiting:
  "request_loop req xs sn sl = (Waiting, w') \<Longrightarrow> script w' = []"
proof (induction xs arbitrary: sn sl)
  case Nil
  then show ?case by auto
next
  case (Cons x xs)
  then show ?case
    by (fastforce split: reply.splits if_splits option.splits sum.splits)
qed

lemma make_request_Waiting:
  "make_request w req = (Waiting, w') \<Longrightarrow> script w' = []"
  unfolding make_request_def by (rule request_loop_Waiting)

lemma fetch_profiles_Waiting:
  "fetch_profiles w hits users = (Waiting, w') \<Longrightarrow> script w' = []"
proof (induction hits arbitrary: w users)
  case Nil
  then show ?case by simp
next
  case (Cons hit hits)
  show ?case
  proof (cases "getitem hit ''url''")
    case (Inl e)
    with Cons.prems show ?thesis by simp
  next
    case (Inr url)
    obtain r1 w1 where m: "make_request w (Profile url) = (r1, w1)"
      by (cases "make_request w (Profile url)")
    show ?thesis
    proof (cases r1)
      case (Raised e)
      with Cons.prems Inr m show ?thesis by simp
    next
      case Waiting
      with Cons.prems Inr m show ?thesis
        by (auto dest: make_request_Waiting)
    next
      case (Returned user_data)
      with Cons.prems Inr m show ?thesis
        by (cases "cleaned_data user_data") (auto dest: Cons.IH)
    qed
  qed
qed

lemma search_loop_Waiting:
  "search_loop w location min_followers page users = (Waiting, w') \<Longrightarrow> script w' = []"
proof (induction w location min_followers page users rule: search_loop_induct)
  case (turn w location min_followers page users)
  from turn.prems show ?case
  proof (cases rule: search_loop_cases)
    case (stop r1)
    from stop(1) stop(3) [OF refl] show ?thesis
      by (auto dest: make_request_Waiting)
  next
    case (fail response w1 items hits)
    then show ?thesis
      by (auto dest: fetch_profiles_Waiting)
  next
    case (continue response w1 items hits users1 w2)
    then show ?thesis
      by (intro turn.IH [of response w1 items hits users1 w2])
  qed
qed

lemma repos_loop_Waiting:
  "repos_loop w username max_repos page repos = (Waiting, w') \<Longrightarrow> script w' = []"
proof (induction w username max_repos page repos rule: repos_loop_induct)
  case (turn w username max_repos page repos)
  from turn.prems show ?case
  proof (cases rule: repos_loop_cases)
    case cap
    then show ?thesis by simp
  next
    case (stop r1)
    from stop(2) stop(4) [OF refl] show ?thesis
      by (auto dest: make_request_Waiting)
  next
    case (continue response w1 entries repos1)
    then show ?thesis
      by (intro turn.IH [of response w1 entries repos1])
  qed
qed

lemma get_user_repositories_Waiting:
  assumes "get_user_repositories w username max_repos = (Waiting, w')"
  shows "script w' = []"
proof -
  obtain r1 w1 where l: "repos_loop w username max_repos 1 [] = (r1, w1)"
    by (cases "repos_loop w username max_repos 1 []")
  with assms have "r1 = Waiting" "w1 = w'"
    by (cases r1; simp add: get_user_repositories_def)+
  with l show ?thesis
    by (auto dest: repos_loop_Waiting)
qed

lemma collect_repos_Waiting:
  "collect_repos w users all_repos = (Waiting, w') \<Longrightarrow> script w' = []"
proof (induction users arbitrary: w all_repos)
  case Nil
  then show ?case by simp
next
  case (Cons user rest)
  show ?case
  proof (cases "getitem user ''login''")
    case (Inl e)
    with Cons.prems show ?thesis by simp
  next
    case (Inr login)
    obtain r1 w1 where g: "get_user_repositories w login 500 = (r1, w1)"
      by (cases "get_user_repositories w login 500")
    with Cons.prems Inr show ?thesis
      by (cases r1) (auto dest: get_user_repositories_Waiting Cons.IH)
  qed
qed

lemma main_Waiting:
  assumes "main w typed = (Waiting, w')"
  shows "script w' = []"
  using assms
proof (cases rule: main_cases)
  case no_token
  then show ?thesis by simp
next
  case (no_users r1)
  from no_users(4) have "r1 = Waiting"
    by simp
  with no_users(1) show ?thesis
    by (auto simp: search_users_def dest: search_loop_Waiting)
next
  case (users users w1 r2)
  from users(4) have "r2 = Waiting"
    by simp
  with users(2) show ?thesis
    by (auto dest: collect_repos_Waiting)
qed

end
